theory Spec2Isabelle
  imports
    Main
    "HOL-Library.AList"
    "HOL-Library.Char_ord"
    "HOL-Library.List_Lexorder"
begin

section \<open>Python values: exceptions and dictionaries\<close>

text \<open>
  The exceptions the modelled code raises or catches. A \<open>KeyError\<close> carries the key that
  was looked up: a token (a string key of \<open>vocab\<close>), an index (a key of
  \<open>reversed_vocab\<close>) or the name of an entry of a tensordict. \<open>OtherException\<close> stands for
  every exception class that is not a \<open>RuntimeError\<close> (an injected scoring function may
  raise anything).
\<close>

datatype key = Token string | Index int | Entry string

datatype error = RuntimeError | KeyError key | OtherException

text \<open>
  A Python \<open>dict\<close> keeps its keys in insertion order and stores a key once: assigning to a
  key that is present replaces its value in place, a new key goes to the end. It is
  modelled as an association list with that update (\<open>AList.update\<close>).
  \<open>dict_of\<close> is \<open>dict(pairs)\<close>: the pairs are inserted from left to right, so for a repeated
  key the last value wins and the key keeps its first position.
\<close>

type_synonym ('k, 'v) dict = "('k \<times> 'v) list"

definition dict_of :: "('k \<times> 'v) list \<Rightarrow> ('k, 'v) dict" where
  "dict_of kvs = foldl (\<lambda>d (k, v). AList.update k v d) [] kvs"

text \<open>\<open>{v: k for k, v in d.items()}\<close>\<close>

definition reversed_dict :: "('k, 'v) dict \<Rightarrow> ('v, 'k) dict" where
  "reversed_dict d = dict_of (map (\<lambda>(k, v). (v, k)) d)"

text \<open>\<open>d[k]\<close> raises \<open>KeyError\<close> on a missing key.\<close>

definition getitem :: "('k \<Rightarrow> key) \<Rightarrow> ('k, 'v) dict \<Rightarrow> 'k \<Rightarrow> error + 'v" where
  "getitem mk d k = (case map_of d k of None \<Rightarrow> Inl (KeyError (mk k)) | Some v \<Rightarrow> Inr v)"

text \<open>
  \<open>s.replace(old, new)\<close> for a pattern \<open>old\<close> of one character, the only form the code uses
  (\<open>"L"\<close> and \<open>"R"\<close>): every occurrence of the character is replaced, left to right.
\<close>

definition str_replace :: "char \<Rightarrow> string \<Rightarrow> string \<Rightarrow> string" where
  "str_replace old new s = concat (map (\<lambda>c. if c = old then new else [c]) s)"

section \<open>The SMILES vocabulary (\<open>acegen/vocabulary/vocabulary.py\<close>)\<close>

text \<open>
  The fields of \<open>SMILESVocabulary\<close>. The tokenizer is an injected object with a
  \<open>tokenize\<close> method (its class is not part of the modelled files); it is a function from
  text to tokens, or \<open>None\<close>. Indices are Python integers. \<open>encode\<close> stores them in a
  \<open>float32\<close> array, which holds every integer of magnitude at most \<open>2 ^ 24\<close> exactly; the
  model keeps the integers, and \<open>float32_exact\<close> says that a vocabulary stays in that range.
\<close>

type_synonym tokenizer = "string \<Rightarrow> string list"

record vocabulary =
  start_token :: string
  end_token :: string
  special_tokens :: "string list"
  additional_chars :: "string set"
  chars :: "string list"
  vocab_size :: nat
  vocab :: "(string, int) dict"
  reversed_vocab :: "(int, string) dict"
  max_length :: int
  tokenizer :: "tokenizer option"

text \<open>\<open>__init__\<close>\<close>

definition SMILESVocabulary ::
  "string \<Rightarrow> int \<Rightarrow> string \<Rightarrow> int \<Rightarrow> int \<Rightarrow> tokenizer option \<Rightarrow> vocabulary" where
  "SMILESVocabulary start_tok start_token_index end_tok end_token_index max_len tok =
     (let special = [end_tok, start_tok];
          special_indices = [end_token_index, start_token_index];
          voc = dict_of (zip special special_indices)
      in \<lparr> start_token = start_tok,
           end_token = end_tok,
           special_tokens = special,
           additional_chars = {},
           chars = special,
           vocab_size = length special,
           vocab = voc,
           reversed_vocab = reversed_dict voc,
           max_length = max_len,
           tokenizer = tok \<rparr>)"

text \<open>\<open>cls()\<close>: the constructor with every default.\<close>

definition default_vocabulary :: vocabulary where
  "default_vocabulary = SMILESVocabulary ''GO'' 0 ''EOS'' 1 140 None"

text \<open>
  \<open>encode\<close>: without a tokenizer a \<open>RuntimeError\<close>; otherwise every token is looked up in
  \<open>vocab\<close>, in order, and the first missing token raises \<open>KeyError\<close>.
\<close>

fun encode_loop :: "(string, int) dict \<Rightarrow> string list \<Rightarrow> error + int list" where
  "encode_loop voc [] = Inr []"
| "encode_loop voc (c # cs) =
     (case getitem Token voc c of
        Inl e \<Rightarrow> Inl e
      | Inr i \<Rightarrow> (case encode_loop voc cs of Inl e \<Rightarrow> Inl e | Inr is \<Rightarrow> Inr (i # is)))"

definition encode :: "vocabulary \<Rightarrow> string \<Rightarrow> error + int list" where
  "encode v smiles =
     (case tokenizer v of
        None \<Rightarrow> Inl RuntimeError
      | Some tok \<Rightarrow> encode_loop (vocab v) (tok smiles))"

text \<open>
  \<open>decode\<close>: the loop over the indices with its three tests in the order of the source
  (ignored index, start token, end token), then the lookup in \<open>reversed_vocab\<close>. The two
  lookups \<open>self.vocab[self.start_token]\<close> and \<open>self.vocab[self.end_token]\<close> are evaluated
  in every iteration that reaches them, and raise \<open>KeyError\<close> when the token is missing.
\<close>

fun decode_loop :: "vocabulary \<Rightarrow> int list \<Rightarrow> int list \<Rightarrow> string list \<Rightarrow> error + string list" where
  "decode_loop v [] ignore_indices cs = Inr cs"
| "decode_loop v (i # rest) ignore_indices cs =
     (if i \<in> set ignore_indices then decode_loop v rest ignore_indices cs
      else (case getitem Token (vocab v) (start_token v) of
        Inl e \<Rightarrow> Inl e
      | Inr s \<Rightarrow>
          (if i = s then decode_loop v rest ignore_indices cs
           else (case getitem Token (vocab v) (end_token v) of
             Inl e \<Rightarrow> Inl e
           | Inr e \<Rightarrow>
               (if i = e then Inr cs
                else (case getitem Index (reversed_vocab v) i of
                  Inl err \<Rightarrow> Inl err
                | Inr c \<Rightarrow> decode_loop v rest ignore_indices (cs @ [c])))))))"

definition canonicalize :: "string \<Rightarrow> string" where
  "canonicalize smiles = str_replace CHR ''R'' ''Br'' (str_replace CHR ''L'' ''Cl'' smiles)"

definition decode :: "vocabulary \<Rightarrow> int list \<Rightarrow> int list \<Rightarrow> error + string" where
  "decode v encoded_smiles ignore_indices =
     (case decode_loop v encoded_smiles ignore_indices [] of
        Inl e \<Rightarrow> Inl e
      | Inr cs \<Rightarrow> Inr (canonicalize (concat cs)))"

text \<open>
  \<open>add_characters\<close>: the loop tests membership in \<open>self.chars\<close>, which it does not change;
  \<open>list(set)\<close> followed by \<open>sort()\<close> is the sorted list of the set (Python compares strings
  lexicographically by code point, as the order on \<open>string\<close> does by character code).
\<close>

definition add_characters :: "vocabulary \<Rightarrow> string list \<Rightarrow> vocabulary" where
  "add_characters v cs =
     (let additional = foldl (\<lambda>A c. if c \<notin> set (chars v) then insert c A else A)
                         (additional_chars v) cs;
          char_list = sorted_list_of_set additional;
          chars' = char_list @ special_tokens v;
          voc = dict_of (zip chars' (map int [0 ..< length chars']))
      in v \<lparr> additional_chars := additional,
             chars := chars',
             vocab_size := length chars',
             vocab := voc,
             reversed_vocab := reversed_dict voc \<rparr>)"

text \<open>
  \<open>create_from_smiles\<close>: the vocabulary built first (with the configured tokens and
  tokenizer) only tokenizes the corpus; the vocabulary returned is a second one, \<open>cls()\<close>.
\<close>

definition create_from_smiles ::
  "string list \<Rightarrow> tokenizer \<Rightarrow> string \<Rightarrow> int \<Rightarrow> string \<Rightarrow> int \<Rightarrow> int \<Rightarrow> vocabulary" where
  "create_from_smiles smiles_list tok start_tok start_token_index end_tok end_token_index max_len =
     (let vocabulary =
            SMILESVocabulary start_tok start_token_index end_tok end_token_index max_len (Some tok);
          tokens = foldl (\<lambda>T smi. T \<union> set (the (tokenizer vocabulary) smi)) {} smiles_list;
          vocabulary = default_vocabulary
      in add_characters vocabulary (sorted_list_of_set tokens))"

text \<open>
  \<open>create_from_dict\<close>: the argument is a Python \<open>dict\<close> (an association list with distinct
  keys); the constructor is called with its default indices 0 and 1.
\<close>

definition create_from_dict ::
  "(string, int) dict \<Rightarrow> string \<Rightarrow> string \<Rightarrow> int \<Rightarrow> tokenizer option \<Rightarrow> vocabulary" where
  "create_from_dict voc start_tok end_tok max_len tok =
     (let vocabulary = SMILESVocabulary start_tok 0 end_tok 1 max_len tok;
          cs = map fst voc;
          special = [end_tok, start_tok]
      in vocabulary \<lparr> vocab_size := length voc,
                      vocab := voc,
                      reversed_vocab := reversed_dict voc,
                      chars := cs,
                      special_tokens := special,
                      additional_chars := {c \<in> set cs. c \<notin> set special} \<rparr>)"

section \<open>Trajectory batches and the reward transforms\<close>

text \<open>
  The nested \<open>next\<close> record of a batch of shape \<open>[B, T]\<close>: \<open>B\<close> trajectories of \<open>T\<close> steps,
  each step with its flags (shape \<open>[B, T, 1]\<close>, squeezed), its reward (shape \<open>[B, T, 1]\<close>)
  and its token sequence (shape \<open>[B, T, L]\<close>, key \<open>"SMILES"\<close>). A list of rows of step
  records keeps the fields of one batch in one shape, as a tensordict does. The reward
  type is any type with \<open>+\<close> and \<open>*\<close>; no law of arithmetic is assumed of them.
\<close>

record 'r step =
  next_done :: bool
  next_terminated :: bool
  next_reward :: 'r
  next_SMILES :: "int list"

type_synonym 'r tensordict = "'r step list list"

text \<open>
  \<open>td.get_sub_tensordict(flag)\<close> with a boolean mask of the batch shape: the steps where
  the mask holds, in row-major order (trajectory by trajectory).
\<close>

definition get_sub_tensordict :: "('a \<Rightarrow> bool) \<Rightarrow> 'a list list \<Rightarrow> 'a list" where
  "get_sub_tensordict flag td = filter flag (concat td)"

text \<open>
  \<open>sub_tensordict.set(key, values, inplace=True)\<close>: the values are written back to the
  masked steps of the parent, in the same order.
\<close>

fun set_row :: "('a \<Rightarrow> bool) \<Rightarrow> ('b \<Rightarrow> 'a \<Rightarrow> 'a) \<Rightarrow> 'a list \<Rightarrow> 'b list \<Rightarrow> 'a list" where
  "set_row flag upd [] vs = []"
| "set_row flag upd (x # xs) vs =
     (if flag x
      then (case vs of [] \<Rightarrow> x # set_row flag upd xs [] | w # ws \<Rightarrow> upd w x # set_row flag upd xs ws)
      else x # set_row flag upd xs vs)"

fun set_sub_tensordict ::
  "('a \<Rightarrow> bool) \<Rightarrow> ('b \<Rightarrow> 'a \<Rightarrow> 'a) \<Rightarrow> 'a list list \<Rightarrow> 'b list \<Rightarrow> 'a list list" where
  "set_sub_tensordict flag upd [] vs = []"
| "set_sub_tensordict flag upd (row # rows) vs =
     set_row flag upd row vs
       # set_sub_tensordict flag upd rows (drop (length (filter flag row)) vs)"

definition set_reward :: "'r \<Rightarrow> 'r step \<Rightarrow> 'r step" where
  "set_reward r st = st \<lparr> next_reward := r \<rparr>"

text \<open>
  The injected collaborators. The vocabulary is an object with a \<open>decode\<close> method. The
  scoring function is a callable from the list of texts to a list of scores; it may keep
  state and may raise, so a call maps its state to an outcome and a new state.
\<close>

type_synonym decoder = "int list \<Rightarrow> int list \<Rightarrow> error + string"

datatype 'r outcome = Returns "'r list" | Raises error

type_synonym ('s, 'r) reward_function = "string list \<Rightarrow> 's \<Rightarrow> 'r outcome \<times> 's"

text \<open>The loop that decodes every selected sequence with \<open>ignore_indices=[-1]\<close>.\<close>

fun decode_all :: "decoder \<Rightarrow> int list list \<Rightarrow> error + string list" where
  "decode_all vocabulary_decode [] = Inr []"
| "decode_all vocabulary_decode (smi # smiles) =
     (case vocabulary_decode smi [-1] of
        Inl e \<Rightarrow> Inl e
      | Inr text \<Rightarrow>
          (case decode_all vocabulary_decode smiles of
             Inl e \<Rightarrow> Inl e
           | Inr smiles_list \<Rightarrow> Inr (text # smiles_list)))"

subsection \<open>\<open>SMILESReward._call\<close> of \<open>examples/ppo/utils.py\<close>\<close>

text \<open>
  \<open>forward\<close> of this class calls \<open>_call\<close> on the nested \<open>next\<close> record and returns the
  batch; the model's batch is that record.

  The body of the \<open>try\<close> block: the scoring call, then
  \<open>reward += _reward.reshape(reward.shape)\<close>. The reward of the sub-tensordict has shape
  \<open>[n, 1]\<close>, so the reshape raises \<open>RuntimeError\<close> unless there are exactly \<open>n\<close> scores.
\<close>

definition try_reward ::
  "('s, 'r::plus) reward_function \<Rightarrow> string list \<Rightarrow> 'r list \<Rightarrow> 's \<Rightarrow> (error + 'r list) \<times> 's" where
  "try_reward reward_function smiles_list reward s =
     (case reward_function smiles_list s of
        (Returns scores, s') \<Rightarrow>
          (if length scores = length reward then (Inr (map2 (+) reward scores), s')
           else (Inl RuntimeError, s'))
      | (Raises e, s') \<Rightarrow> (Inl e, s'))"

text \<open>
  The warning of the \<open>except\<close> branch, \<open>"... Trying again. Attempt {i + 1}/{max_attempts}"\<close>.
\<close>

datatype warning = TryingAgain nat nat

text \<open>
  \<open>for i in range(max_attempts)\<close>: a successful attempt breaks out of the loop, a
  \<open>RuntimeError\<close> is caught (raised again in the last iteration, warned about otherwise),
  every other exception leaves the loop at once. The result carries the state of the
  scoring function after its last call and the warnings emitted.
\<close>

fun attempts ::
  "nat list \<Rightarrow> nat \<Rightarrow> ('s, 'r::plus) reward_function \<Rightarrow> string list \<Rightarrow> 'r list \<Rightarrow> 's
     \<Rightarrow> warning list \<Rightarrow> (error + 'r list) \<times> 's \<times> warning list" where
  "attempts [] max_attempts reward_function smiles_list reward s ws = (Inr reward, s, ws)"
| "attempts (i # rest) max_attempts reward_function smiles_list reward s ws =
     (case try_reward reward_function smiles_list reward s of
        (Inr reward', s') \<Rightarrow> (Inr reward', s', ws)
      | (Inl RuntimeError, s') \<Rightarrow>
          (if i = max_attempts - 1 then (Inl RuntimeError, s', ws)
           else attempts rest max_attempts reward_function smiles_list reward s'
                  (ws @ [TryingAgain (i + 1) max_attempts]))
      | (Inl e, s') \<Rightarrow> (Inl e, s', ws))"

definition call ::
  "decoder \<Rightarrow> ('s, 'r::{plus,times}) reward_function \<Rightarrow> 'r \<Rightarrow> 'r tensordict \<Rightarrow> 's
     \<Rightarrow> (error + 'r tensordict) \<times> 's \<times> warning list" where
  "call vocabulary_decode reward_function reward_scale tensordict s =
     (let sub_tensordict = get_sub_tensordict next_done tensordict in
      if length sub_tensordict = 0 then (Inr tensordict, s, [])
      else
        (let reward = map next_reward sub_tensordict;
             smiles = map next_SMILES sub_tensordict
         in (case decode_all vocabulary_decode smiles of
               Inl e \<Rightarrow> (Inl e, s, [])
             | Inr smiles_list \<Rightarrow>
                 (let max_attempts = 3 in
                  (case attempts [0 ..< max_attempts] max_attempts reward_function
                          smiles_list reward s [] of
                     (Inl e, s', ws) \<Rightarrow> (Inl e, s', ws)
                   | (Inr reward', s', ws) \<Rightarrow>
                       (Inr (set_sub_tensordict next_done set_reward tensordict
                               (map (\<lambda>r. r * reward_scale) reward')),
                        s', ws))))))"

subsection \<open>\<open>SMILESReward.forward\<close> of \<open>acegen/transforms/reward_transform.py\<close>\<close>

text \<open>
  One scoring call, outside any \<open>try\<close>. \<open>reward[:, 0] += torch.tensor(scores)\<close> adds a
  tensor of shape \<open>[m]\<close> to one of shape \<open>[n]\<close> in place: elementwise when \<open>m = n\<close>,
  broadcast when \<open>m = 1\<close>, a \<open>RuntimeError\<close> otherwise.
\<close>

definition forward ::
  "decoder \<Rightarrow> ('s, 'r::plus) reward_function \<Rightarrow> 'r tensordict \<Rightarrow> 's
     \<Rightarrow> (error + 'r tensordict) \<times> 's" where
  "forward vocabulary_decode reward_function tensordict s =
     (let sub_tensordict = get_sub_tensordict next_terminated tensordict in
      if length sub_tensordict = 0 then (Inr tensordict, s)
      else
        (let reward = map next_reward sub_tensordict;
             smiles = map next_SMILES sub_tensordict
         in (case decode_all vocabulary_decode smiles of
               Inl e \<Rightarrow> (Inl e, s)
             | Inr smiles_list \<Rightarrow>
                 (case reward_function smiles_list s of
                    (Raises e, s') \<Rightarrow> (Inl e, s')
                  | (Returns scores, s') \<Rightarrow>
                      (if length scores = length reward
                       then (Inr (set_sub_tensordict next_terminated set_reward tensordict
                                    (map2 (+) reward scores)), s')
                       else if length scores = 1
                       then (Inr (set_sub_tensordict next_terminated set_reward tensordict
                                    (map (\<lambda>r. r + hd scores) reward)), s')
                       else (Inl RuntimeError, s'))))))"

section \<open>The two reward transforms with their reward keys\<close>

text \<open>
  The step record above has one reward field: the entry that the transform at hand reads
  and writes. The two transforms name that entry differently: \<open>_call\<close> of
  \<open>examples/ppo/utils.py\<close> by \<open>self.out_keys[0]\<close>, \<open>forward\<close> of
  \<open>acegen/transforms/reward_transform.py\<close> by the literal \<open>"reward"\<close>, whatever its
  \<open>out_keys\<close>. To compare them, a step holds its reward-like entries by name. The flags
  and the token sequence (the entry \<open>self.in_keys[0]\<close> in both transforms) are as before.
\<close>

record 'r keyed_step =
  done_entry :: bool
  terminated_entry :: bool
  SMILES_entry :: "int list"
  reward_entries :: "(string, 'r) dict"

text \<open>
  \<open>sub_tensordict.get(key)\<close>: the entry of that name at the selected steps, a \<open>KeyError\<close>
  when the batch has no such entry. \<open>sub_tensordict.set(key, values, inplace=True)\<close> writes
  an entry that exists.
\<close>

fun get_entries :: "string \<Rightarrow> 'r keyed_step list \<Rightarrow> error + 'r list" where
  "get_entries k [] = Inr []"
| "get_entries k (st # sts) =
     (case getitem Entry (reward_entries st) k of
        Inl e \<Rightarrow> Inl e
      | Inr r \<Rightarrow> (case get_entries k sts of Inl e \<Rightarrow> Inl e | Inr rs \<Rightarrow> Inr (r # rs)))"

definition set_entry :: "string \<Rightarrow> 'r \<Rightarrow> 'r keyed_step \<Rightarrow> 'r keyed_step" where
  "set_entry k r st = st \<lparr> reward_entries := AList.update k r (reward_entries st) \<rparr>"

text \<open>\<open>SMILESReward._call\<close> of \<open>examples/ppo/utils.py\<close>, with \<open>out_key = self.out_keys[0]\<close>.\<close>

definition call_keyed ::
  "decoder \<Rightarrow> ('s, 'r::{plus,times}) reward_function \<Rightarrow> 'r \<Rightarrow> string \<Rightarrow> 'r keyed_step list list
     \<Rightarrow> 's \<Rightarrow> (error + 'r keyed_step list list) \<times> 's \<times> warning list" where
  "call_keyed vocabulary_decode reward_function reward_scale out_key tensordict s =
     (let sub_tensordict = get_sub_tensordict done_entry tensordict in
      if length sub_tensordict = 0 then (Inr tensordict, s, [])
      else
        (case get_entries out_key sub_tensordict of
           Inl e \<Rightarrow> (Inl e, s, [])
         | Inr reward \<Rightarrow>
             (let smiles = map SMILES_entry sub_tensordict
              in (case decode_all vocabulary_decode smiles of
                    Inl e \<Rightarrow> (Inl e, s, [])
                  | Inr smiles_list \<Rightarrow>
                      (let max_attempts = 3 in
                       (case attempts [0 ..< max_attempts] max_attempts reward_function
                               smiles_list reward s [] of
                          (Inl e, s', ws) \<Rightarrow> (Inl e, s', ws)
                        | (Inr reward', s', ws) \<Rightarrow>
                            (Inr (set_sub_tensordict done_entry (set_entry out_key) tensordict
                                    (map (\<lambda>r. r * reward_scale) reward')),
                             s', ws)))))))"

text \<open>
  \<open>SMILESReward.forward\<close> of \<open>acegen/transforms/reward_transform.py\<close>: the constructor
  takes \<open>out_keys\<close> as well, but \<open>forward\<close> reads and writes \<open>"reward"\<close>.
\<close>

definition forward_keyed ::
  "decoder \<Rightarrow> ('s, 'r::plus) reward_function \<Rightarrow> string \<Rightarrow> 'r keyed_step list list
     \<Rightarrow> 's \<Rightarrow> (error + 'r keyed_step list list) \<times> 's" where
  "forward_keyed vocabulary_decode reward_function out_key tensordict s =
     (let sub_tensordict = get_sub_tensordict terminated_entry tensordict in
      if length sub_tensordict = 0 then (Inr tensordict, s)
      else
        (case get_entries ''reward'' sub_tensordict of
           Inl e \<Rightarrow> (Inl e, s)
         | Inr reward \<Rightarrow>
             (let smiles = map SMILES_entry sub_tensordict
              in (case decode_all vocabulary_decode smiles of
                    Inl e \<Rightarrow> (Inl e, s)
                  | Inr smiles_list \<Rightarrow>
                      (case reward_function smiles_list s of
                         (Raises e, s') \<Rightarrow> (Inl e, s')
                       | (Returns scores, s') \<Rightarrow>
                           (if length scores = length reward
                            then (Inr (set_sub_tensordict terminated_entry (set_entry ''reward'')
                                         tensordict (map2 (+) reward scores)), s')
                            else if length scores = 1
                            then (Inr (set_sub_tensordict terminated_entry (set_entry ''reward'')
                                         tensordict (map (\<lambda>r. r + hd scores) reward)), s')
                            else (Inl RuntimeError, s')))))))"

text \<open>
  The step as one transform sees it: the entry it names is the step's reward. For a batch
  that holds the entry, the transforms with keys are the transforms of the section before
  on this view (lemmas \<open>call_keyed_view\<close> and \<open>forward_keyed_view\<close> below).
\<close>

definition reward_view :: "string \<Rightarrow> 'r keyed_step \<Rightarrow> 'r step" where
  "reward_view k st =
     \<lparr> next_done = done_entry st,
       next_terminated = terminated_entry st,
       next_reward = the (map_of (reward_entries st) k),
       next_SMILES = SMILES_entry st \<rparr>"

section \<open>Well-formed vocabularies, the decoding rule in the words of the specification, examples\<close>

text \<open>
  A vocabulary is bijective when no token and no index occurs twice in \<open>vocab\<close> and
  \<open>reversed_vocab\<close> is the dictionary built from it, as every constructor builds it.
\<close>

definition bijective_vocabulary :: "vocabulary \<Rightarrow> bool" where
  "bijective_vocabulary v \<longleftrightarrow>
     distinct (map fst (vocab v)) \<and> distinct (map snd (vocab v))
     \<and> reversed_vocab v = reversed_dict (vocab v)"

text \<open>
  Every index is an integer that a \<open>float32\<close> holds exactly. Beyond this range \<open>encode\<close>
  stores a rounded index (\<open>2 ^ 24 + 1\<close> becomes \<open>2 ^ 24\<close>), which \<open>decode\<close> maps to
  another token or to none; the theorems about \<open>encode\<close> are stated within the range.
\<close>

definition float32_exact :: "vocabulary \<Rightarrow> bool" where
  "float32_exact v = list_all (\<lambda>(t, i). \<bar>i\<bar> \<le> 2 ^ 24) (vocab v)"

text \<open>
  The final normalization as the specification words it: one pass over the string that
  replaces each single-letter placeholder by its two-letter element symbol, \<open>L\<close> by
  \<open>Cl\<close> (chlorine) and \<open>R\<close> by \<open>Br\<close> (bromine), and keeps every other character.
\<close>

fun element_symbols :: "string \<Rightarrow> string" where
  "element_symbols [] = []"
| "element_symbols (c # cs) =
     (if c = CHR ''L'' then ''Cl'' else if c = CHR ''R'' then ''Br'' else [c])
       @ element_symbols cs"

text \<open>
  The decoding rule as the specification words it: skip the ignored indices and the start
  index, stop at the first end index that is not skipped, map what remains back to tokens
  (a \<open>KeyError\<close> for the first index without a token), concatenate, and replace the
  placeholders in the whole string.
\<close>

fun tokens_of :: "(int, string) dict \<Rightarrow> int list \<Rightarrow> error + string list" where
  "tokens_of rv [] = Inr []"
| "tokens_of rv (i # is) =
     (case getitem Index rv i of
        Inl e \<Rightarrow> Inl e
      | Inr c \<Rightarrow> (case tokens_of rv is of Inl e \<Rightarrow> Inl e | Inr cs \<Rightarrow> Inr (c # cs)))"

definition decode_spec :: "vocabulary \<Rightarrow> int \<Rightarrow> int \<Rightarrow> int list \<Rightarrow> int list \<Rightarrow> error + string" where
  "decode_spec v start_index end_index indices ignore_indices =
     (let skipped = (\<lambda>i. i \<in> set ignore_indices \<or> i = start_index);
          before_end = takeWhile (\<lambda>i. skipped i \<or> i \<noteq> end_index) indices;
          remaining = filter (\<lambda>i. \<not> skipped i) before_end
      in (case tokens_of (reversed_vocab v) remaining of
            Inl e \<Rightarrow> Inl e
          | Inr tokens \<Rightarrow> Inr (element_symbols (concat tokens))))"

text \<open>
  Example objects for the concrete instances below: a tokenizer that makes every character
  a token, the vocabulary of the class's docstring (with the chlorine placeholder \<open>L\<close>
  added), a vocabulary with both placeholders, and a vocabulary whose reserved tokens are
  single characters.
\<close>

definition char_tokenizer :: tokenizer where
  "char_tokenizer smiles = map (\<lambda>c. [c]) smiles"

definition example_vocabulary :: vocabulary where
  "example_vocabulary =
     add_characters (SMILESVocabulary ''GO'' 0 ''EOS'' 1 140 (Some char_tokenizer))
       [''('', '')'', ''1'', ''='', ''C'', ''N'', ''O'', ''L'']"

definition halogen_vocabulary :: vocabulary where
  "halogen_vocabulary = add_characters default_vocabulary [''C'', ''L'', ''R'', ''N'']"

definition reserved_char_vocabulary :: vocabulary where
  "reserved_char_vocabulary =
     add_characters (SMILESVocabulary ''^'' 0 ''$'' 1 140 (Some char_tokenizer)) [''C'']"


text \<open>
  The state \<open>add_characters\<close> expects, which \<open>__init__\<close> establishes for two distinct
  reserved tokens and \<open>add_characters\<close> keeps: the reserved tokens are the end and the start
  token, they are among \<open>chars\<close>, and none of them is an additional character.
\<close>

definition vocabulary_inv :: "vocabulary \<Rightarrow> bool" where
  "vocabulary_inv v \<longleftrightarrow>
     special_tokens v = [end_token v, start_token v]
     \<and> start_token v \<noteq> end_token v
     \<and> set (special_tokens v) \<subseteq> set (chars v)
     \<and> additional_chars v \<inter> set (special_tokens v) = {}
     \<and> finite (additional_chars v)"

section \<open>Notions for the reward transforms, examples\<close>

text \<open>
  The position of step \<open>t\<close> of trajectory \<open>b\<close> in the sub-tensordict of the flagged steps:
  the number of flagged steps before it in row-major order.
\<close>

definition sub_index :: "('a \<Rightarrow> bool) \<Rightarrow> 'a list list \<Rightarrow> nat \<Rightarrow> nat \<Rightarrow> nat" where
  "sub_index flag td b t =
     length (get_sub_tensordict flag (take b td)) + length (filter flag (take t (td ! b)))"

text \<open>The state of the scoring function after \<open>k\<close> calls on the same list of texts.\<close>

fun after_calls :: "('s, 'r) reward_function \<Rightarrow> string list \<Rightarrow> nat \<Rightarrow> 's \<Rightarrow> 's" where
  "after_calls reward_function smiles_list 0 s = s"
| "after_calls reward_function smiles_list (Suc k) s =
     snd (reward_function smiles_list (after_calls reward_function smiles_list k s))"

text \<open>
  Example scoring functions, whose state counts their calls: the dummy function of the
  tests (1 for every text), one that raises \<open>RuntimeError\<close> in its first \<open>k\<close> calls
  and scores a text by its length afterwards, one that raises an exception of another
  class, and one that returns a single score whatever the number of texts. An example
  batch of two trajectories of three steps over \<open>example_vocabulary\<close>, padded with \<open>-1\<close>,
  a batch of two trajectories of two steps with the entries \<open>reward\<close> and \<open>reward2\<close>, and a
  batch with no flagged step.
\<close>

definition dummy_reward_function :: "(nat, int) reward_function" where
  "dummy_reward_function smiles n = (Returns (map (\<lambda>_. 1) smiles), n + 1)"

definition flaky_reward_function :: "nat \<Rightarrow> (nat, int) reward_function" where
  "flaky_reward_function k smiles n =
     (if n < k then (Raises RuntimeError, n + 1)
      else (Returns (map (\<lambda>text. int (length text)) smiles), n + 1))"

definition broken_reward_function :: "(nat, int) reward_function" where
  "broken_reward_function smiles n = (Raises OtherException, n + 1)"

definition example_batch :: "int tensordict" where
  "example_batch =
     [[\<lparr>next_done = False, next_terminated = False, next_reward = 0, next_SMILES = [9, 4, -1, -1]\<rparr>,
       \<lparr>next_done = False, next_terminated = False, next_reward = 0, next_SMILES = [9, 4, 7, -1]\<rparr>,
       \<lparr>next_done = True, next_terminated = True, next_reward = 0, next_SMILES = [9, 4, 7, 8]\<rparr>],
      [\<lparr>next_done = False, next_terminated = False, next_reward = 0, next_SMILES = [9, 6, -1, -1]\<rparr>,
       \<lparr>next_done = True, next_terminated = True, next_reward = 5, next_SMILES = [9, 6, 8, -1]\<rparr>,
       \<lparr>next_done = False, next_terminated = False, next_reward = 0, next_SMILES = [9, 4, -1, -1]\<rparr>]]"

definition single_score_function :: "(nat, int) reward_function" where
  "single_score_function smiles n = (Returns [1], n + 1)"

definition keyed_batch :: "int keyed_step list list" where
  "keyed_batch =
     [[\<lparr>done_entry = False, terminated_entry = False, SMILES_entry = [9, 4, -1, -1],
        reward_entries = [(''reward'', 0), (''reward2'', 0)]\<rparr>,
       \<lparr>done_entry = True, terminated_entry = True, SMILES_entry = [9, 4, 7, 8],
        reward_entries = [(''reward'', 0), (''reward2'', 0)]\<rparr>],
      [\<lparr>done_entry = True, terminated_entry = True, SMILES_entry = [9, 6, 8, -1],
        reward_entries = [(''reward'', 5), (''reward2'', 0)]\<rparr>,
       \<lparr>done_entry = False, terminated_entry = False, SMILES_entry = [9, 4, -1, -1],
        reward_entries = [(''reward'', 0), (''reward2'', 0)]\<rparr>]]"

definition running_batch :: "int tensordict" where
  "running_batch =
     [[\<lparr>next_done = False, next_terminated = False, next_reward = 0, next_SMILES = [9, 4, -1, -1]\<rparr>,
       \<lparr>next_done = False, next_terminated = False, next_reward = 2, next_SMILES = [9, 4, 7, -1]\<rparr>]]"

section \<open>The Repetition Penalty Filter\<close>

text \<open>
  Modelled from the spec: the state of the Repetition Penalty Filter (\<open>PenaliseRepeatedSMILES\<close>,
  \<open>penalise_repeated_smiles\<close>), of which the source files hold only the calls. In the words
  of the specification, the filter keeps an archive of the fingerprints of the texts seen
  and a running counter of the repeats detected.
\<close>

record 'k penalty_filter =
  archive :: "'k set"
  repeated_smiles :: nat

text \<open>
  Modelled from the spec: the Repetition Penalty Filter itself, which is missing from the
  source files as well. It takes the terminal trajectories of the batch in batch-index
  order, each with its decoded text and its reward; a trajectory whose fingerprint is in
  the archive has its shaped reward replaced by the penalty value (and is counted), any
  other is inserted into the archive and keeps its reward. The shaped rewards are a result
  of their own; the rewards given are not changed.
\<close>

fun repetition_penalty ::
  "(string \<Rightarrow> 'k) \<Rightarrow> 'r \<Rightarrow> (string \<times> 'r) list \<Rightarrow> 'k penalty_filter
     \<Rightarrow> 'r list \<times> 'k penalty_filter" where
  "repetition_penalty fingerprint penalty [] st = ([], st)"
| "repetition_penalty fingerprint penalty ((text, r) # rest) st =
     (if fingerprint text \<in> archive st
      then (case repetition_penalty fingerprint penalty rest
                   (st \<lparr> repeated_smiles := repeated_smiles st + 1 \<rparr>) of
              (shaped, st') \<Rightarrow> (penalty # shaped, st'))
      else (case repetition_penalty fingerprint penalty rest
                   (st \<lparr> archive := insert (fingerprint text) (archive st) \<rparr>) of
              (shaped, st') \<Rightarrow> (r # shaped, st')))"

section \<open>Dictionaries\<close>

lemma update_fresh: "k \<notin> fst ` set d \<Longrightarrow> AList.update k v d = d @ [(k, v)]"
  by (induction d) auto

lemma foldl_update_distinct:
  "distinct (map fst (d @ kvs)) \<Longrightarrow> foldl (\<lambda>d (k, v). AList.update k v d) d kvs = d @ kvs"
proof (induction kvs arbitrary: d)
  case Nil
  then show ?case by simp
next
  case (Cons kv kvs)
  obtain k v where kv: "kv = (k, v)" by (cases kv)
  from Cons.prems kv have fresh: "k \<notin> fst ` set d" by auto
  from Cons.prems kv have "distinct (map fst ((d @ [(k, v)]) @ kvs))" by simp
  from Cons.IH[OF this] show ?case using fresh kv by (simp add: update_fresh)
qed

lemma dict_of_distinct: "distinct (map fst kvs) \<Longrightarrow> dict_of kvs = kvs"
  using foldl_update_distinct[of "[]" kvs] by (simp add: dict_of_def)

lemma map_fst_swap: "map fst (map (\<lambda>(k, v). (v, k)) d) = map snd d"
  by (induction d) auto

lemma map_snd_swap: "map snd (map (\<lambda>(k, v). (v, k)) d) = map fst d"
  by (induction d) auto

lemma reversed_dict_distinct:
  assumes "distinct (map snd d)"
  shows "reversed_dict d = map (\<lambda>(k, v). (v, k)) d"
proof -
  have "distinct (map fst (map (\<lambda>(k, v). (v, k)) d))"
    unfolding map_fst_swap by (rule assms)
  then show ?thesis by (simp add: reversed_dict_def dict_of_distinct)
qed

lemma map_of_swap:
  assumes dk: "distinct (map fst d)" and dv: "distinct (map snd d)"
  shows "map_of (map (\<lambda>(k, v). (v, k)) d) i = Some t \<longleftrightarrow> map_of d t = Some i"
proof -
  have "distinct (map fst (map (\<lambda>(k, v). (v, k)) d))"
    unfolding map_fst_swap by (rule dv)
  then have "map_of (map (\<lambda>(k, v). (v, k)) d) i = Some t
      \<longleftrightarrow> (i, t) \<in> set (map (\<lambda>(k, v). (v, k)) d)"
    by simp
  also have "\<dots> \<longleftrightarrow> (t, i) \<in> set d" by auto
  also have "\<dots> \<longleftrightarrow> map_of d t = Some i" using dk by simp
  finally show ?thesis .
qed

lemma key_lookup: "k \<in> fst ` set d \<Longrightarrow> \<exists>v. map_of d k = Some v"
  by (cases "map_of d k") (auto simp: map_of_eq_None_iff)

section \<open>Encoding\<close>

lemma encode_loop_ok:
  "\<forall>t \<in> set ts. map_of voc t \<noteq> None \<Longrightarrow>
   encode_loop voc ts = Inr (map (\<lambda>t. the (map_of voc t)) ts)"
  by (induction ts) (auto simp: getitem_def split: option.splits)

lemma encode_loop_missing:
  "List.find (\<lambda>t. map_of voc t = None) ts = Some t \<Longrightarrow>
   encode_loop voc ts = Inl (KeyError (Token t))"
  by (induction ts) (auto simp: getitem_def split: option.splits if_splits)

lemma tokenizer_add_characters: "tokenizer (add_characters v cs) = tokenizer v"
  by (simp add: add_characters_def Let_def)

lemma tokenizer_SMILESVocabulary: "tokenizer (SMILESVocabulary st si et ei ml tok) = tok"
  by (simp add: SMILESVocabulary_def Let_def)

text \<open>
  Claim C8. With a tokenizer set, a text with a token that is not in the vocabulary makes
  \<open>encode\<close> fail with a \<open>KeyError\<close> for a missing token (the first one; the
  specification calls it \<open>MissingTokenError\<close>; nothing catches or retries it); a text whose
  tokens are all in the vocabulary is encoded, with one index per token, the index
  \<open>vocab\<close> gives the token.
\<close>

theorem encode_missing_token:
  assumes "tokenizer v = Some tok" and "float32_exact v"
  shows "(\<forall>t. List.find (\<lambda>t. map_of (vocab v) t = None) (tok smiles) = Some t
            \<longrightarrow> encode v smiles = Inl (KeyError (Token t)))
       \<and> ((\<exists>t \<in> set (tok smiles). map_of (vocab v) t = None)
            \<longrightarrow> (\<exists>t \<in> set (tok smiles). map_of (vocab v) t = None
                   \<and> encode v smiles = Inl (KeyError (Token t))))
       \<and> ((\<forall>t \<in> set (tok smiles). map_of (vocab v) t \<noteq> None)
            \<longrightarrow> (\<exists>is. encode v smiles = Inr is \<and> length is = length (tok smiles)
                   \<and> (\<forall>n < length is. map_of (vocab v) (tok smiles ! n) = Some (is ! n))))"
proof (intro conjI allI impI)
  fix t assume "List.find (\<lambda>t. map_of (vocab v) t = None) (tok smiles) = Some t"
  then show "encode v smiles = Inl (KeyError (Token t))"
    using assms(1) by (simp add: encode_def encode_loop_missing)
next
  assume "\<exists>t \<in> set (tok smiles). map_of (vocab v) t = None"
  then obtain t where f: "List.find (\<lambda>t. map_of (vocab v) t = None) (tok smiles) = Some t"
    by (cases "List.find (\<lambda>t. map_of (vocab v) t = None) (tok smiles)")
       (auto simp: find_None_iff)
  then have "t \<in> set (tok smiles)" and "map_of (vocab v) t = None"
    by (auto simp: find_Some_iff)
  moreover have "encode v smiles = Inl (KeyError (Token t))"
    using assms(1) f by (simp add: encode_def encode_loop_missing)
  ultimately show "\<exists>t \<in> set (tok smiles). map_of (vocab v) t = None
                   \<and> encode v smiles = Inl (KeyError (Token t))" by blast
next
  assume a: "\<forall>t \<in> set (tok smiles). map_of (vocab v) t \<noteq> None"
  then have "encode v smiles = Inr (map (\<lambda>t. the (map_of (vocab v) t)) (tok smiles))"
    using assms(1) by (simp add: encode_def encode_loop_ok)
  moreover have "\<forall>n < length (tok smiles).
      map_of (vocab v) (tok smiles ! n) = Some (the (map_of (vocab v) (tok smiles ! n)))"
    using a by auto
  ultimately show "\<exists>is. encode v smiles = Inr is \<and> length is = length (tok smiles)
                   \<and> (\<forall>n < length is. map_of (vocab v) (tok smiles ! n) = Some (is ! n))"
    by simp
qed

theorem encode_missing_token_witness:
  "tokenizer example_vocabulary = Some char_tokenizer
   \<and> float32_exact example_vocabulary
   \<and> encode example_vocabulary ''C1=CS'' = Inl (KeyError (Token ''S''))
   \<and> (\<exists>is. encode example_vocabulary ''C1=CC'' = Inr is \<and> length is = 5)"
proof -
  have t: "tokenizer example_vocabulary = Some char_tokenizer"
    by (simp add: example_vocabulary_def tokenizer_add_characters tokenizer_SMILESVocabulary)
  have f: "float32_exact example_vocabulary" by code_simp
  have m: "List.find (\<lambda>t. map_of (vocab example_vocabulary) t = None) (char_tokenizer ''C1=CS'')
             = Some ''S''"
    by code_simp
  have a: "\<forall>t \<in> set (char_tokenizer ''C1=CC''). map_of (vocab example_vocabulary) t \<noteq> None"
    by code_simp
  have l: "length (char_tokenizer ''C1=CC'') = 5" by code_simp
  from encode_missing_token[OF t f, of "''C1=CS''"] m
  have "encode example_vocabulary ''C1=CS'' = Inl (KeyError (Token ''S''))" by blast
  moreover from encode_missing_token[OF t f, of "''C1=CC''"] a l
  have "\<exists>is. encode example_vocabulary ''C1=CC'' = Inr is \<and> length is = 5" by auto
  ultimately show ?thesis using t f by blast
qed

section \<open>Decoding\<close>

lemma decode_loop_spec:
  assumes s: "map_of (vocab v) (start_token v) = Some s"
      and e: "map_of (vocab v) (end_token v) = Some e"
  shows "decode_loop v xs ign cs =
     (case tokens_of (reversed_vocab v)
             (filter (\<lambda>i. \<not> (i \<in> set ign \<or> i = s))
                (takeWhile (\<lambda>i. (i \<in> set ign \<or> i = s) \<or> i \<noteq> e) xs)) of
        Inl err \<Rightarrow> Inl err
      | Inr ts \<Rightarrow> Inr (cs @ ts))"
proof (induction xs arbitrary: cs)
  case Nil
  show ?case by simp
next
  case (Cons i xs)
  have gs: "getitem Token (vocab v) (start_token v) = Inr s"
    and ge: "getitem Token (vocab v) (end_token v) = Inr e"
    using s e by (simp_all add: getitem_def)
  show ?case
  proof (cases "i \<in> set ign \<or> i = s")
    case True
    then show ?thesis using Cons.IH[of cs] gs by auto
  next
    case skip: False
    show ?thesis
    proof (cases "i = e")
      case True
      then show ?thesis using skip gs ge by simp
    next
      case False
      show ?thesis
      proof (cases "getitem Index (reversed_vocab v) i")
        case (Inl err)
        then show ?thesis using skip False gs ge by simp
      next
        case (Inr c)
        then show ?thesis using skip False gs ge Cons.IH[of "cs @ [c]"]
          by (simp split: sum.splits)
      qed
    qed
  qed
qed

lemma str_replace_append:
  "str_replace old new (xs @ ys) = str_replace old new xs @ str_replace old new ys"
  by (simp add: str_replace_def)

lemma str_replace_Cons:
  "str_replace old new (c # cs) = (if c = old then new else [c]) @ str_replace old new cs"
  by (simp add: str_replace_def)

lemma canonicalize_element_symbols: "canonicalize s = element_symbols s"
proof (induction s)
  case Nil
  show ?case by (simp add: canonicalize_def str_replace_def)
next
  case (Cons c cs)
  have "canonicalize (c # cs) =
          str_replace CHR ''R'' ''Br'' (if c = CHR ''L'' then ''Cl'' else [c]) @ canonicalize cs"
    by (simp only: canonicalize_def str_replace_Cons str_replace_append)
  also have "str_replace CHR ''R'' ''Br'' (if c = CHR ''L'' then ''Cl'' else [c]) =
          (if c = CHR ''L'' then ''Cl'' else if c = CHR ''R'' then ''Br'' else [c])"
    by (simp add: str_replace_def)
  finally show ?case by (simp add: Cons.IH)
qed

text \<open>
  Claim C4. For every sequence of indices and every collection of ignored indices,
  \<open>decode\<close> is the rule of the specification: ignored indices and the start index are
  skipped, the first end index that is not skipped ends the scan before anything is
  appended for it, the remaining indices are mapped to their tokens, and in the
  concatenation as a whole every placeholder \<open>L\<close> becomes \<open>Cl\<close> and every \<open>R\<close> becomes
  \<open>Br\<close>. (The vocabulary holds its start and end token.)
\<close>

theorem decode_follows_spec:
  assumes "map_of (vocab v) (start_token v) = Some s"
      and "map_of (vocab v) (end_token v) = Some e"
  shows "decode v indices ignore_indices = decode_spec v s e indices ignore_indices"
  using decode_loop_spec[OF assms, of indices ignore_indices "[]"]
  by (simp add: decode_def decode_spec_def canonicalize_element_symbols split: sum.splits)

theorem decode_follows_spec_witness:
  "map_of (vocab halogen_vocabulary) (start_token halogen_vocabulary) = Some 5
   \<and> map_of (vocab halogen_vocabulary) (end_token halogen_vocabulary) = Some 4
   \<and> decode halogen_vocabulary [5, 0, 1, -1, 2, 5, 3, 0, 4, 2, 0] [-1]
       = decode_spec halogen_vocabulary 5 4 [5, 0, 1, -1, 2, 5, 3, 0, 4, 2, 0] [-1]
   \<and> decode halogen_vocabulary [5, 0, 1, -1, 2, 5, 3, 0, 4, 2, 0] [-1] = Inr ''CClNBrC''"
proof -
  have s: "map_of (vocab halogen_vocabulary) (start_token halogen_vocabulary) = Some 5"
    by code_simp
  have e: "map_of (vocab halogen_vocabulary) (end_token halogen_vocabulary) = Some 4"
    by code_simp
  have v: "decode_spec halogen_vocabulary 5 4 [5, 0, 1, -1, 2, 5, 3, 0, 4, 2, 0] [-1]
             = Inr ''CClNBrC''"
    by code_simp
  show ?thesis using s e v decode_follows_spec[OF s e] by simp
qed

section \<open>The round trip\<close>

lemma tokens_of_indices:
  assumes "bijective_vocabulary v"
  shows "set ts \<subseteq> fst ` set (vocab v) \<Longrightarrow>
         tokens_of (reversed_vocab v) (map (\<lambda>t. the (map_of (vocab v) t)) ts) = Inr ts"
proof (induction ts)
  case Nil
  show ?case by simp
next
  case (Cons t ts)
  from assms have dk: "distinct (map fst (vocab v))" and dv: "distinct (map snd (vocab v))"
    and rv: "reversed_vocab v = map (\<lambda>(k, v). (v, k)) (vocab v)"
    by (simp_all add: bijective_vocabulary_def reversed_dict_distinct)
  from Cons.prems obtain i where i: "map_of (vocab v) t = Some i"
    using key_lookup[of t "vocab v"] by auto
  then have "map_of (reversed_vocab v) i = Some t"
    using map_of_swap[OF dk dv] rv by simp
  then show ?case using Cons i by (simp add: getitem_def)
qed

lemma index_eq_iff:
  assumes "bijective_vocabulary v"
      and "map_of (vocab v) t = Some i" and "map_of (vocab v) u = Some j"
  shows "i = j \<longleftrightarrow> t = u"
proof
  assume "i = j"
  from assms(1) have dk: "distinct (map fst (vocab v))" and dv: "distinct (map snd (vocab v))"
    by (simp_all add: bijective_vocabulary_def)
  have "map_of (map (\<lambda>(k, v). (v, k)) (vocab v)) i = Some t"
    using map_of_swap[OF dk dv] assms(2) by simp
  moreover have "map_of (map (\<lambda>(k, v). (v, k)) (vocab v)) i = Some u"
    using map_of_swap[OF dk dv] assms(3) \<open>i = j\<close> by simp
  ultimately show "t = u" by simp
next
  assume "t = u" then show "i = j" using assms(2,3) by simp
qed

lemma decode_encoded:
  assumes bij: "bijective_vocabulary v"
      and s: "map_of (vocab v) (start_token v) = Some s"
      and e: "map_of (vocab v) (end_token v) = Some e"
      and ts: "set ts \<subseteq> fst ` set (vocab v)"
  shows "decode v (map (\<lambda>t. the (map_of (vocab v) t)) ts) [] =
         Inr (canonicalize (concat (filter (\<lambda>t. t \<noteq> start_token v)
                (takeWhile (\<lambda>t. t = start_token v \<or> t \<noteq> end_token v) ts))))"
proof -
  let ?idx = "\<lambda>t. the (map_of (vocab v) t)"
  have key: "map_of (vocab v) t = Some (?idx t)" if "t \<in> set ts" for t
  proof -
    from that ts have "t \<in> fst ` set (vocab v)" by blast
    from key_lookup[OF this] show ?thesis by auto
  qed
  have st: "\<And>t. t \<in> set ts \<Longrightarrow> ?idx t = s \<longleftrightarrow> t = start_token v"
    using index_eq_iff[OF bij key s] by simp
  have en: "\<And>t. t \<in> set ts \<Longrightarrow> ?idx t = e \<longleftrightarrow> t = end_token v"
    using index_eq_iff[OF bij key e] by simp
  have tw: "takeWhile (\<lambda>i. i = s \<or> i \<noteq> e) (map ?idx ts)
              = map ?idx (takeWhile (\<lambda>t. t = start_token v \<or> t \<noteq> end_token v) ts)"
    unfolding takeWhile_map
    by (rule arg_cong[where f = "map ?idx"], rule takeWhile_cong) (auto simp: st en)
  let ?kept = "takeWhile (\<lambda>t. t = start_token v \<or> t \<noteq> end_token v) ts"
  have sub: "set ?kept \<subseteq> set ts" by (auto dest: set_takeWhileD)
  have fl: "filter (\<lambda>i. i \<noteq> s) (map ?idx ?kept)
              = map ?idx (filter (\<lambda>t. t \<noteq> start_token v) ?kept)"
    unfolding filter_map
    by (rule arg_cong[where f = "map ?idx"], rule filter_cong) (use sub st in auto)
  have sub2: "set (filter (\<lambda>t. t \<noteq> start_token v) ?kept) \<subseteq> fst ` set (vocab v)"
    using sub ts by auto
  show ?thesis
    using decode_loop_spec[OF s e, of "map ?idx ts" "[]" "[]"]
      tokens_of_indices[OF bij sub2]
    by (simp add: decode_def tw fl)
qed

text \<open>
  Claim C1, as amended. For a bijective vocabulary that holds its reserved tokens and
  whose indices all have a magnitude of at most \<open>2 ^ 24\<close> (the integers that the
  \<open>float32\<close> array of \<open>encode\<close> holds exactly), and a text whose tokens are all in the
  vocabulary, \<open>encode\<close> succeeds and decoding its result gives the canonicalized
  concatenation of the tokens before the first end token, start tokens left out. When no
  token of the text is reserved and the tokens concatenate to the text, this is the
  canonicalized text itself. The maximum length plays no part.
\<close>

theorem encode_decode_round_trip:
  assumes "bijective_vocabulary v"
      and "float32_exact v"
      and "start_token v \<in> fst ` set (vocab v)"
      and "end_token v \<in> fst ` set (vocab v)"
      and "tokenizer v = Some tok"
      and "set (tok smiles) \<subseteq> fst ` set (vocab v)"
  shows "\<exists>is. encode v smiles = Inr is
          \<and> decode v is [] =
              Inr (canonicalize (concat (filter (\<lambda>t. t \<noteq> start_token v)
                     (takeWhile (\<lambda>t. t = start_token v \<or> t \<noteq> end_token v) (tok smiles)))))
          \<and> (start_token v \<notin> set (tok smiles) \<and> end_token v \<notin> set (tok smiles)
                \<and> concat (tok smiles) = smiles
              \<longrightarrow> decode v is [] = Inr (canonicalize smiles))"
proof -
  let ?idx = "\<lambda>t. the (map_of (vocab v) t)"
  obtain s e where s: "map_of (vocab v) (start_token v) = Some s"
    and e: "map_of (vocab v) (end_token v) = Some e"
    using assms(3,4) key_lookup[of _ "vocab v"] by blast
  have "map_of (vocab v) t \<noteq> None" if "t \<in> set (tok smiles)" for t
  proof -
    from that assms(6) have "t \<in> fst ` set (vocab v)" by blast
    from key_lookup[OF this] show ?thesis by auto
  qed
  then have "encode_loop (vocab v) (tok smiles) = Inr (map ?idx (tok smiles))"
    by (intro encode_loop_ok) blast
  then have enc: "encode v smiles = Inr (map ?idx (tok smiles))"
    using assms(5) by (simp add: encode_def)
  have dec: "decode v (map ?idx (tok smiles)) [] =
         Inr (canonicalize (concat (filter (\<lambda>t. t \<noteq> start_token v)
                (takeWhile (\<lambda>t. t = start_token v \<or> t \<noteq> end_token v) (tok smiles)))))"
    by (rule decode_encoded[OF assms(1) s e assms(6)])
  have plain: "start_token v \<notin> set (tok smiles) \<and> end_token v \<notin> set (tok smiles)
      \<Longrightarrow> filter (\<lambda>t. t \<noteq> start_token v)
                (takeWhile (\<lambda>t. t = start_token v \<or> t \<noteq> end_token v) (tok smiles))
            = tok smiles"
  proof -
    assume a: "start_token v \<notin> set (tok smiles) \<and> end_token v \<notin> set (tok smiles)"
    then have tw: "takeWhile (\<lambda>t. t = start_token v \<or> t \<noteq> end_token v) (tok smiles)
                     = tok smiles"
      by (intro takeWhile_eq_all_conv[THEN iffD2]) auto
    have fl: "filter (\<lambda>t. t \<noteq> start_token v) (tok smiles) = tok smiles"
      using a by (intro filter_True) auto
    show ?thesis unfolding tw by (rule fl)
  qed
  show ?thesis using enc dec plain by auto
qed

theorem encode_decode_round_trip_witness:
  "bijective_vocabulary example_vocabulary
   \<and> float32_exact example_vocabulary
   \<and> start_token example_vocabulary \<in> fst ` set (vocab example_vocabulary)
   \<and> end_token example_vocabulary \<in> fst ` set (vocab example_vocabulary)
   \<and> tokenizer example_vocabulary = Some char_tokenizer
   \<and> set (char_tokenizer ''C1=CC=CC=C1L'') \<subseteq> fst ` set (vocab example_vocabulary)
   \<and> start_token example_vocabulary \<notin> set (char_tokenizer ''C1=CC=CC=C1L'')
   \<and> end_token example_vocabulary \<notin> set (char_tokenizer ''C1=CC=CC=C1L'')
   \<and> concat (char_tokenizer ''C1=CC=CC=C1L'') = ''C1=CC=CC=C1L''
   \<and> (\<exists>is. encode example_vocabulary ''C1=CC=CC=C1L'' = Inr is
          \<and> decode example_vocabulary is [] = Inr ''C1=CC=CC=C1Cl'')"
proof -
  have b: "bijective_vocabulary example_vocabulary" by code_simp
  have f: "float32_exact example_vocabulary" by code_simp
  have s: "start_token example_vocabulary \<in> fst ` set (vocab example_vocabulary)" by code_simp
  have e: "end_token example_vocabulary \<in> fst ` set (vocab example_vocabulary)" by code_simp
  have t: "tokenizer example_vocabulary = Some char_tokenizer"
    by (simp add: example_vocabulary_def tokenizer_add_characters tokenizer_SMILESVocabulary)
  have k: "set (char_tokenizer ''C1=CC=CC=C1L'') \<subseteq> fst ` set (vocab example_vocabulary)"
    by code_simp
  have n1: "start_token example_vocabulary \<notin> set (char_tokenizer ''C1=CC=CC=C1L'')" by code_simp
  have n2: "end_token example_vocabulary \<notin> set (char_tokenizer ''C1=CC=CC=C1L'')" by code_simp
  have c: "concat (char_tokenizer ''C1=CC=CC=C1L'') = ''C1=CC=CC=C1L''" by code_simp
  have n: "canonicalize ''C1=CC=CC=C1L'' = ''C1=CC=CC=C1Cl''" by code_simp
  from encode_decode_round_trip[OF b f s e t k] n1 n2 c n
  have "\<exists>is. encode example_vocabulary ''C1=CC=CC=C1L'' = Inr is
          \<and> decode example_vocabulary is [] = Inr ''C1=CC=CC=C1Cl''"
    by auto
  then show ?thesis using b f s e t k n1 n2 c by blast
qed

text \<open>
  The claim as stated fails for a text that contains a reserved token: the vocabulary is
  bijective, every token of \<open>C$C\<close> is in it and the text is shorter than the maximum
  length, but the round trip stops at the end token \<open>$\<close> and returns \<open>C\<close>.
\<close>

theorem round_trip_counterexample:
  "bijective_vocabulary reserved_char_vocabulary
   \<and> set (char_tokenizer ''C$C'') \<subseteq> fst ` set (vocab reserved_char_vocabulary)
   \<and> int (length ''C$C'') < max_length reserved_char_vocabulary
   \<and> encode reserved_char_vocabulary ''C$C'' = Inr [0, 1, 0]
   \<and> decode reserved_char_vocabulary [0, 1, 0] [] = Inr ''C''
   \<and> decode reserved_char_vocabulary [0, 1, 0] [] \<noteq> Inr (canonicalize ''C$C'')"
proof -
  have t: "tokenizer reserved_char_vocabulary = Some char_tokenizer"
    by (simp add: reserved_char_vocabulary_def tokenizer_add_characters tokenizer_SMILESVocabulary)
  have v: "vocab reserved_char_vocabulary = [(''C'', 0), (''$'', 1), (''^'', 2)]"
    by code_simp
  have 0: "bijective_vocabulary reserved_char_vocabulary" by code_simp
  have 1: "set (char_tokenizer ''C$C'') \<subseteq> fst ` set (vocab reserved_char_vocabulary)"
    by code_simp
  have 2: "int (length ''C$C'') < max_length reserved_char_vocabulary" by code_simp
  have 3: "encode reserved_char_vocabulary ''C$C'' = Inr [0, 1, 0]"
    by (simp add: encode_def t v char_tokenizer_def getitem_def)
  have 4: "decode reserved_char_vocabulary [0, 1, 0] [] = Inr ''C''" by code_simp
  have 5: "canonicalize ''C$C'' = ''C$C''" by code_simp
  have 6: "decode reserved_char_vocabulary [0, 1, 0] [] \<noteq> Inr (canonicalize ''C$C'')"
    unfolding 4 5 by simp
  show ?thesis using 0 1 2 3 4 6 by blast
qed

section \<open>Rebuilding the mapping\<close>

lemma foldl_add:
  "foldl (\<lambda>A c. if c \<notin> old then insert c A else A) A cs = A \<union> {c \<in> set cs. c \<notin> old}"
  by (induction cs arbitrary: A) auto

lemma add_characters_fields:
  "additional_chars (add_characters v cs)
     = additional_chars v \<union> {c \<in> set cs. c \<notin> set (chars v)}"
  "chars (add_characters v cs)
     = sorted_list_of_set (additional_chars (add_characters v cs)) @ special_tokens v"
  "vocab (add_characters v cs)
     = dict_of (zip (chars (add_characters v cs))
                 (map int [0 ..< length (chars (add_characters v cs))]))"
  "reversed_vocab (add_characters v cs) = reversed_dict (vocab (add_characters v cs))"
  "vocab_size (add_characters v cs) = length (chars (add_characters v cs))"
  "special_tokens (add_characters v cs) = special_tokens v"
  "start_token (add_characters v cs) = start_token v"
  "end_token (add_characters v cs) = end_token v"
  by (simp_all add: add_characters_def Let_def foldl_add)

lemma add_characters_distinct:
  assumes "vocabulary_inv v"
  shows "finite (additional_chars (add_characters v cs))"
    and "additional_chars (add_characters v cs) \<inter> {end_token v, start_token v} = {}"
    and "distinct (chars (add_characters v cs))"
proof -
  let ?A = "additional_chars (add_characters v cs)"
  from assms have sp: "special_tokens v = [end_token v, start_token v]"
    and ne: "start_token v \<noteq> end_token v"
    and sub: "set (special_tokens v) \<subseteq> set (chars v)"
    and dis: "additional_chars v \<inter> set (special_tokens v) = {}"
    and fin: "finite (additional_chars v)"
    unfolding vocabulary_inv_def by blast+
  show f: "finite ?A" using fin by (simp add: add_characters_fields(1))
  show d: "?A \<inter> {end_token v, start_token v} = {}"
    using dis sub sp by (auto simp: add_characters_fields(1))
  show "distinct (chars (add_characters v cs))"
    using f d ne sp by (auto simp: add_characters_fields(2))
qed

lemma distinct_map_int_upt: "distinct (map int [0 ..< n])"
  by (simp add: distinct_map inj_on_def)

lemma add_characters_vocab:
  assumes "vocabulary_inv v"
  shows "vocab (add_characters v cs)
           = zip (chars (add_characters v cs))
               (map int [0 ..< length (chars (add_characters v cs))])"
    and "reversed_vocab (add_characters v cs)
           = map (\<lambda>(k, i). (i, k)) (vocab (add_characters v cs))"
    and "bijective_vocabulary (add_characters v cs)"
proof -
  let ?cs = "chars (add_characters v cs)"
  have d: "distinct ?cs" by (rule add_characters_distinct(3)[OF assms])
  show v: "vocab (add_characters v cs) = zip ?cs (map int [0 ..< length ?cs])"
    using d by (simp add: add_characters_fields(3) dict_of_distinct)
  have dk: "distinct (map fst (vocab (add_characters v cs)))" using d by (simp add: v)
  have dv: "distinct (map snd (vocab (add_characters v cs)))"
    by (simp add: v distinct_map_int_upt)
  show "reversed_vocab (add_characters v cs)
           = map (\<lambda>(k, i). (i, k)) (vocab (add_characters v cs))"
    using dv by (simp add: add_characters_fields(4) reversed_dict_distinct)
  show "bijective_vocabulary (add_characters v cs)"
    using dk dv by (simp add: bijective_vocabulary_def add_characters_fields(4))
qed

lemma map_of_zip_upt:
  assumes "distinct xs" and "i < length xs"
  shows "map_of (zip xs (map int [0 ..< length xs])) (xs ! i) = Some (int i)"
  using map_of_zip_nth[of xs "map int [0 ..< length xs]" i] assms by simp

lemma SMILESVocabulary_inv:
  "start_tok \<noteq> end_tok \<Longrightarrow>
   vocabulary_inv (SMILESVocabulary start_tok start_token_index end_tok end_token_index max_len tok)"
  by (simp add: vocabulary_inv_def SMILESVocabulary_def Let_def)

lemma create_from_dict_inv:
  "start_tok \<noteq> end_tok \<Longrightarrow> {end_tok, start_tok} \<subseteq> fst ` set voc \<Longrightarrow>
   vocabulary_inv (create_from_dict voc start_tok end_tok max_len tok)"
  by (auto simp: vocabulary_inv_def create_from_dict_def SMILESVocabulary_def Let_def)

text \<open>
  Claim C7. For a vocabulary in the state its constructors leave it in and every list of
  new characters, \<open>add_characters\<close> merges the characters that are not yet among \<open>chars\<close>
  into the additional characters, and rebuilds the mapping from the strictly sorted list
  of the additional characters followed by the end and the start token: the \<open>n\<close>
  non-reserved tokens get the indices \<open>0, ..., n - 1\<close> in sorted order, the end token gets
  \<open>n\<close> and the start token \<open>n + 1\<close>, no token and no index occurs twice, and
  \<open>reversed_vocab\<close> is the inverse mapping. The state is kept.
\<close>

theorem add_characters_rebuilds_mapping:
  assumes "vocabulary_inv v"
  shows "additional_chars (add_characters v cs)
           = additional_chars v \<union> {c \<in> set cs. c \<notin> set (chars v)}
       \<and> chars (add_characters v cs)
           = sorted_list_of_set (additional_chars (add_characters v cs))
               @ [end_token v, start_token v]
       \<and> sorted_wrt (<) (sorted_list_of_set (additional_chars (add_characters v cs)))
       \<and> vocab (add_characters v cs)
           = zip (chars (add_characters v cs))
               (map int [0 ..< card (additional_chars (add_characters v cs)) + 2])
       \<and> (\<forall>i < card (additional_chars (add_characters v cs)).
            map_of (vocab (add_characters v cs))
              (sorted_list_of_set (additional_chars (add_characters v cs)) ! i) = Some (int i))
       \<and> map_of (vocab (add_characters v cs)) (end_token v)
           = Some (int (card (additional_chars (add_characters v cs))))
       \<and> map_of (vocab (add_characters v cs)) (start_token v)
           = Some (int (card (additional_chars (add_characters v cs))) + 1)
       \<and> bijective_vocabulary (add_characters v cs)
       \<and> (\<forall>t i. map_of (vocab (add_characters v cs)) t = Some i
              \<longleftrightarrow> map_of (reversed_vocab (add_characters v cs)) i = Some t)
       \<and> vocabulary_inv (add_characters v cs)"
proof -
  let ?v = "add_characters v cs"
  let ?A = "additional_chars ?v"
  let ?S = "sorted_list_of_set ?A"
  let ?n = "card ?A"
  from assms have sp: "special_tokens v = [end_token v, start_token v]"
    and ne: "start_token v \<noteq> end_token v"
    unfolding vocabulary_inv_def by blast+
  have fin: "finite ?A" and dis: "?A \<inter> {end_token v, start_token v} = {}"
    and d: "distinct (chars ?v)"
    by (rule add_characters_distinct[OF assms])+
  have cs: "chars ?v = ?S @ [end_token v, start_token v]"
    by (simp add: add_characters_fields(2) sp)
  have len: "length (chars ?v) = ?n + 2" by (simp add: cs)
  have voc: "vocab ?v = zip (chars ?v) (map int [0 ..< ?n + 2])"
    using add_characters_vocab(1)[OF assms, of cs] by (simp add: len)
  have look: "map_of (vocab ?v) (chars ?v ! i) = Some (int i)" if "i < ?n + 2" for i
    using map_of_zip_upt[OF d, of i] that voc len by simp
  have low: "\<forall>i < ?n. map_of (vocab ?v) (?S ! i) = Some (int i)"
  proof (intro allI impI)
    fix i assume "i < ?n"
    then have "chars ?v ! i = ?S ! i" by (simp add: cs nth_append)
    with look[of i] \<open>i < ?n\<close> show "map_of (vocab ?v) (?S ! i) = Some (int i)" by simp
  qed
  have "chars ?v ! ?n = end_token v" by (simp add: cs nth_append)
  with look[of ?n] have en: "map_of (vocab ?v) (end_token v) = Some (int ?n)" by simp
  have "chars ?v ! (?n + 1) = start_token v" by (simp add: cs nth_append)
  with look[of "?n + 1"] have st: "map_of (vocab ?v) (start_token v) = Some (int ?n + 1)"
    by simp
  have bij: "bijective_vocabulary ?v" by (rule add_characters_vocab(3)[OF assms])
  then have dk: "distinct (map fst (vocab ?v))" and dv: "distinct (map snd (vocab ?v))"
    by (simp_all add: bijective_vocabulary_def)
  have inv: "\<forall>t i. map_of (vocab ?v) t = Some i \<longleftrightarrow> map_of (reversed_vocab ?v) i = Some t"
    using map_of_swap[OF dk dv] add_characters_vocab(2)[OF assms, of cs] by simp
  have vinv: "vocabulary_inv ?v"
    using fin dis ne sp cs
    by (simp add: vocabulary_inv_def add_characters_fields(6,7,8))
  show ?thesis
    using add_characters_fields(1)[of v cs] cs voc low en st bij inv vinv
    by (simp only: strict_sorted_list_of_set simp_thms)
qed

theorem add_characters_rebuilds_mapping_witness:
  "vocabulary_inv default_vocabulary
   \<and> vocab (add_characters default_vocabulary [''C'', ''('', ''N'', ''C''])
       = [(''('', 0), (''C'', 1), (''N'', 2), (''EOS'', 3), (''GO'', 4)]
   \<and> bijective_vocabulary (add_characters default_vocabulary [''C'', ''('', ''N'', ''C''])"
proof -
  let ?v = "add_characters default_vocabulary [''C'', ''('', ''N'', ''C'']"
  have i: "vocabulary_inv default_vocabulary"
    by (simp add: default_vocabulary_def SMILESVocabulary_inv)
  have a: "additional_chars default_vocabulary
             \<union> {c \<in> set [''C'', ''('', ''N'', ''C'']. c \<notin> set (chars default_vocabulary)}
           = {''('', ''C'', ''N''}"
    by code_simp
  have s: "sorted_list_of_set {''('', ''C'', ''N''} = [''('', ''C'', ''N'']" by code_simp
  have c: "card {''('', ''C'', ''N''} = 3" by code_simp
  have e: "end_token default_vocabulary = ''EOS''" and t: "start_token default_vocabulary = ''GO''"
    by (simp_all add: default_vocabulary_def SMILESVocabulary_def Let_def)
  have u: "map int [0 ..< 3 + 2] = [0, 1, 2, 3, 4]" by code_simp
  from add_characters_rebuilds_mapping[OF i, of "[''C'', ''('', ''N'', ''C'']"]
  have "vocab ?v = [(''('', 0), (''C'', 1), (''N'', 2), (''EOS'', 3), (''GO'', 4)]"
    and "bijective_vocabulary ?v"
    by (simp_all only: a s c e t u zip.simps append.simps list.case)
  with i show ?thesis by blast
qed

section \<open>The alternate constructors\<close>

text \<open>
  Claim C6. \<open>create_from_smiles\<close> returns a vocabulary built by \<open>cls()\<close>: whatever tokenizer,
  reserved tokens and maximum length it was given, the result has no tokenizer, so that
  \<open>encode\<close> raises \<open>RuntimeError\<close> on every text, and has the default tokens \<open>GO\<close> and
  \<open>EOS\<close> and the default maximum length. \<open>create_from_dict\<close> keeps all of them. For the
  corpus \<open>["CC"]\<close> and the mapping \<open>create_from_smiles\<close> produces for it, the vocabulary of
  \<open>create_from_dict\<close> encodes \<open>CC\<close> and the one of \<open>create_from_smiles\<close> does not.
\<close>

theorem create_from_smiles_drops_configuration:
  "tokenizer (create_from_smiles smiles_list tok start_tok start_token_index end_tok end_token_index max_len) = None
   \<and> encode (create_from_smiles smiles_list tok start_tok start_token_index end_tok end_token_index max_len) smiles
       = Inl RuntimeError
   \<and> start_token (create_from_smiles smiles_list tok start_tok start_token_index end_tok end_token_index max_len) = ''GO''
   \<and> end_token (create_from_smiles smiles_list tok start_tok start_token_index end_tok end_token_index max_len) = ''EOS''
   \<and> max_length (create_from_smiles smiles_list tok start_tok start_token_index end_tok end_token_index max_len) = 140
   \<and> tokenizer (create_from_dict voc start_tok end_tok max_len (Some tok)) = Some tok
   \<and> start_token (create_from_dict voc start_tok end_tok max_len (Some tok)) = start_tok
   \<and> end_token (create_from_dict voc start_tok end_tok max_len (Some tok)) = end_tok
   \<and> max_length (create_from_dict voc start_tok end_tok max_len (Some tok)) = max_len
   \<and> vocab (create_from_smiles [''CC''] char_tokenizer ''GO'' 0 ''EOS'' 1 140)
       = [(''C'', 0), (''EOS'', 1), (''GO'', 2)]
   \<and> encode (create_from_smiles [''CC''] char_tokenizer ''GO'' 0 ''EOS'' 1 140) ''CC''
       = Inl RuntimeError
   \<and> encode (create_from_dict [(''C'', 0), (''EOS'', 1), (''GO'', 2)] ''GO'' ''EOS'' 140
               (Some char_tokenizer)) ''CC''
       = Inr [0, 0]"
proof -
  let ?v = "create_from_smiles smiles_list tok start_tok start_token_index end_tok end_token_index max_len"
  have t: "tokenizer (create_from_smiles sl tk st si et ei ml) = None" for sl tk st si et ei ml
    by (simp add: create_from_smiles_def Let_def tokenizer_add_characters default_vocabulary_def
        tokenizer_SMILESVocabulary)
  have e: "encode (create_from_smiles sl tk st si et ei ml) x = Inl RuntimeError"
    for sl tk st si et ei ml x
    by (simp add: encode_def t)
  have f: "start_token ?v = ''GO''" "end_token ?v = ''EOS''" "max_length ?v = 140"
    by (simp_all add: create_from_smiles_def Let_def add_characters_def default_vocabulary_def
        SMILESVocabulary_def)
  have d: "tokenizer (create_from_dict voc start_tok end_tok max_len (Some tok)) = Some tok"
    "start_token (create_from_dict voc start_tok end_tok max_len (Some tok)) = start_tok"
    "end_token (create_from_dict voc start_tok end_tok max_len (Some tok)) = end_tok"
    "max_length (create_from_dict voc start_tok end_tok max_len (Some tok)) = max_len"
    by (simp_all add: create_from_dict_def SMILESVocabulary_def Let_def)
  have v: "vocab (create_from_smiles [''CC''] char_tokenizer ''GO'' 0 ''EOS'' 1 140)
       = [(''C'', 0), (''EOS'', 1), (''GO'', 2)]"
    by code_simp
  have g: "encode (create_from_dict [(''C'', 0), (''EOS'', 1), (''GO'', 2)] ''GO'' ''EOS'' 140
               (Some char_tokenizer)) ''CC'' = Inr [0, 0]"
    by (simp add: encode_def create_from_dict_def SMILESVocabulary_def Let_def
        char_tokenizer_def getitem_def)
  show ?thesis using t e f d v g by (simp only: simp_thms)
qed

section \<open>Reading and writing the flagged steps of a batch\<close>

lemma set_row_length: "length (set_row f u xs vs) = length xs"
  by (induction xs arbitrary: vs) (auto split: list.splits)

lemma set_row_nth:
  "t < length xs \<Longrightarrow> length (filter f xs) \<le> length vs \<Longrightarrow>
   set_row f u xs vs ! t =
     (if f (xs ! t) then u (vs ! length (filter f (take t xs))) (xs ! t) else xs ! t)"
proof (induction xs arbitrary: t vs)
  case Nil
  then show ?case by simp
next
  case (Cons x xs)
  show ?case
  proof (cases t)
    case 0
    then show ?thesis using Cons.prems by (cases vs) auto
  next
    case (Suc t')
    show ?thesis
    proof (cases "f x")
      case True
      with Cons.prems obtain w ws where vs: "vs = w # ws" by (cases vs) auto
      from Cons.prems True vs Suc have "t' < length xs" "length (filter f xs) \<le> length ws"
        by auto
      from Cons.IH[OF this] show ?thesis using True vs Suc by simp
    next
      case False
      from Cons.prems False Suc have "t' < length xs" "length (filter f xs) \<le> length vs"
        by auto
      from Cons.IH[OF this] show ?thesis using False Suc by simp
    qed
  qed
qed

lemma set_sub_tensordict_length: "length (set_sub_tensordict f u td vs) = length td"
  by (induction td arbitrary: vs) auto

lemma set_sub_tensordict_row:
  "b < length td \<Longrightarrow>
   set_sub_tensordict f u td vs ! b =
     set_row f u (td ! b) (drop (length (get_sub_tensordict f (take b td))) vs)"
proof (induction td arbitrary: b vs)
  case Nil
  then show ?case by simp
next
  case (Cons row rows)
  show ?case
  proof (cases b)
    case 0
    then show ?thesis by (simp add: get_sub_tensordict_def)
  next
    case (Suc b')
    with Cons.prems have "b' < length rows" by simp
    from Cons.IH[OF this] show ?thesis
      using Suc by (simp add: get_sub_tensordict_def add.commute)
  qed
qed

lemma get_sub_tensordict_split:
  assumes "b < length td"
  shows "get_sub_tensordict f td =
           get_sub_tensordict f (take b td) @ filter f (td ! b)
             @ get_sub_tensordict f (drop (Suc b) td)"
proof -
  have "get_sub_tensordict f (take b td @ td ! b # drop (Suc b) td) =
          get_sub_tensordict f (take b td) @ filter f (td ! b)
             @ get_sub_tensordict f (drop (Suc b) td)"
    by (simp add: get_sub_tensordict_def)
  then show ?thesis by (simp only: id_take_nth_drop[OF assms, symmetric])
qed

lemma filter_split:
  assumes "t < length xs"
  shows "filter f xs = filter f (take t xs) @ filter f [xs ! t] @ filter f (drop (Suc t) xs)"
proof -
  have "filter f (take t xs @ xs ! t # drop (Suc t) xs) =
          filter f (take t xs) @ filter f [xs ! t] @ filter f (drop (Suc t) xs)"
    by simp
  then show ?thesis by (simp only: id_take_nth_drop[OF assms, symmetric])
qed

lemma sub_index_nth:
  assumes "b < length td" and "t < length (td ! b)" and "f (td ! b ! t)"
  shows "sub_index f td b t < length (get_sub_tensordict f td)"
    and "get_sub_tensordict f td ! sub_index f td b t = td ! b ! t"
proof -
  let ?pre = "get_sub_tensordict f (take b td) @ filter f (take t (td ! b))"
  let ?post = "filter f (drop (Suc t) (td ! b)) @ get_sub_tensordict f (drop (Suc b) td)"
  have "get_sub_tensordict f td = ?pre @ (td ! b ! t) # ?post"
    using get_sub_tensordict_split[OF assms(1), of f] filter_split[OF assms(2), of f] assms(3)
    by simp
  moreover have "length ?pre = sub_index f td b t" by (simp add: sub_index_def)
  ultimately have eq: "get_sub_tensordict f td = ?pre @ (td ! b ! t) # ?post"
    and len: "length ?pre = sub_index f td b t"
    by simp_all
  show "sub_index f td b t < length (get_sub_tensordict f td)"
    unfolding len[symmetric] by (subst eq) simp
  show "get_sub_tensordict f td ! sub_index f td b t = td ! b ! t"
    unfolding len[symmetric] by (subst eq) (simp only: nth_append_length)
qed

lemma set_sub_tensordict_step:
  assumes "b < length td" and "t < length (td ! b)"
      and "length (get_sub_tensordict f td) \<le> length vs"
  shows "set_sub_tensordict f u td vs ! b ! t =
           (if f (td ! b ! t) then u (vs ! sub_index f td b t) (td ! b ! t) else td ! b ! t)"
proof -
  let ?k = "length (get_sub_tensordict f (take b td))"
  have len: "?k + length (filter f (td ! b)) \<le> length vs"
    using get_sub_tensordict_split[OF assms(1), of f] assms(3) by simp
  then have l: "length (filter f (td ! b)) \<le> length (drop ?k vs)" by simp
  have "length (filter f (take t (td ! b))) \<le> length (filter f (td ! b))"
    using filter_split[OF assms(2), of f] by simp
  then have "(drop ?k vs) ! length (filter f (take t (td ! b))) = vs ! sub_index f td b t"
    using len by (simp add: sub_index_def)
  then show ?thesis
    using set_row_nth[OF assms(2) l, of u] set_sub_tensordict_row[OF assms(1), of f u vs]
    by simp
qed

lemma set_sub_tensordict_shape:
  assumes "b < length td"
  shows "length (set_sub_tensordict f u td vs ! b) = length (td ! b)"
  using set_sub_tensordict_row[OF assms, of f u vs] by (simp add: set_row_length)

lemma decode_all_nth:
  "decode_all dec xs = Inr texts \<Longrightarrow>
   length texts = length xs \<and> (\<forall>k < length xs. dec (xs ! k) [-1] = Inr (texts ! k))"
proof (induction xs arbitrary: texts)
  case Nil
  then show ?case by simp
next
  case (Cons x xs)
  from Cons.prems obtain tx rest where x: "dec x [-1] = Inr tx"
    and r: "decode_all dec xs = Inr rest" and t: "texts = tx # rest"
    by (auto split: sum.splits)
  from Cons.IH[OF r] x t show ?case by (auto simp: nth_Cons split: nat.splits)
qed

lemma get_sub_tensordict_cong:
  "(\<forall>row\<in>set td. \<forall>x\<in>set row. f x = g x) \<Longrightarrow>
   get_sub_tensordict f td = get_sub_tensordict g td"
  unfolding get_sub_tensordict_def by (rule filter_cong) auto

lemma set_row_cong:
  "(\<forall>x\<in>set xs. f x = g x) \<Longrightarrow> set_row f u xs vs = set_row g u xs vs"
  by (induction xs arbitrary: vs) (auto split: list.splits)

lemma set_sub_tensordict_cong:
  "(\<forall>row\<in>set td. \<forall>x\<in>set row. f x = g x) \<Longrightarrow>
   set_sub_tensordict f u td vs = set_sub_tensordict g u td vs"
proof (induction td arbitrary: vs)
  case Nil
  show ?case by simp
next
  case (Cons row rows)
  have "filter f row = filter g row" using Cons.prems by (intro filter_cong) auto
  moreover have "set_row f u row vs = set_row g u row vs"
    using Cons.prems by (intro set_row_cong) auto
  moreover have "set_sub_tensordict f u rows ws = set_sub_tensordict g u rows ws" for ws
    using Cons.prems by (intro Cons.IH) auto
  ultimately show ?case by simp
qed

lemma get_sub_tensordict_empty:
  "(\<forall>row\<in>set td. \<forall>st\<in>set row. \<not> f st) \<Longrightarrow> get_sub_tensordict f td = []"
  by (auto simp: get_sub_tensordict_def filter_empty_conv)

section \<open>The retry loop\<close>

lemma try_reward_raises:
  "fst (f texts s) = Raises e \<Longrightarrow> try_reward f texts reward s = (Inl e, snd (f texts s))"
  by (cases "f texts s") (simp add: try_reward_def)

lemma try_reward_returns:
  "fst (f texts s) = Returns scores \<Longrightarrow> length scores = length reward \<Longrightarrow>
   try_reward f texts reward s = (Inr (map2 (+) reward scores), snd (f texts s))"
  by (cases "f texts s") (simp add: try_reward_def)

lemma after_calls_shift:
  "after_calls f texts (Suc j) s = after_calls f texts j (snd (f texts s))"
  by (induction j) simp_all

lemma attempts_success:
  assumes "\<forall>j<k. fst (f texts (after_calls f texts j s)) = Raises RuntimeError"
      and "fst (f texts (after_calls f texts k s)) = Returns scores"
      and "length scores = length reward"
      and "i + k < m"
  shows "attempts [i ..< m] m f texts reward s ws =
           (Inr (map2 (+) reward scores), after_calls f texts (Suc k) s,
            ws @ map (\<lambda>j. TryingAgain (j + 1) m) [i ..< i + k])"
  using assms
proof (induction k arbitrary: i s ws)
  case 0
  then have "[i ..< m] = i # [Suc i ..< m]" by (simp add: upt_conv_Cons)
  then show ?case using 0 by (simp add: try_reward_returns)
next
  case (Suc k)
  have r: "[i ..< m] = i # [Suc i ..< m]" using Suc.prems(4) by (simp add: upt_conv_Cons)
  have f0: "fst (f texts s) = Raises RuntimeError" using Suc.prems(1) by force
  let ?s = "snd (f texts s)"
  have a: "\<forall>j<k. fst (f texts (after_calls f texts j ?s)) = Raises RuntimeError"
    using Suc.prems(1) by (auto simp: after_calls_shift[symmetric])
  have b: "fst (f texts (after_calls f texts k ?s)) = Returns scores"
    using Suc.prems(2) by (simp only: after_calls_shift[symmetric])
  have c: "Suc i + k < m" using Suc.prems(4) by simp
  have w: "[i ..< i + Suc k] = i # [Suc i ..< Suc i + k]" by (simp add: upt_conv_Cons)
  have ne: "i \<noteq> m - 1" using Suc.prems(4) by simp
  have "attempts [i ..< m] m f texts reward s ws =
          attempts [Suc i ..< m] m f texts reward ?s (ws @ [TryingAgain (i + 1) m])"
    unfolding r using ne f0 by (simp add: try_reward_raises[where e = RuntimeError])
  also have "\<dots> = (Inr (map2 (+) reward scores), after_calls f texts (Suc k) ?s,
      (ws @ [TryingAgain (i + 1) m]) @ map (\<lambda>j. TryingAgain (j + 1) m) [Suc i ..< Suc i + k])"
    by (rule Suc.IH[OF a b Suc.prems(3) c])
  finally show ?case by (simp only: w after_calls_shift[symmetric] list.map append.simps append_assoc)
qed

lemma attempts_other:
  assumes "\<forall>j<k. fst (f texts (after_calls f texts j s)) = Raises RuntimeError"
      and "fst (f texts (after_calls f texts k s)) = Raises e"
      and "e \<noteq> RuntimeError"
      and "i + k < m"
  shows "attempts [i ..< m] m f texts reward s ws =
           (Inl e, after_calls f texts (Suc k) s,
            ws @ map (\<lambda>j. TryingAgain (j + 1) m) [i ..< i + k])"
  using assms
proof (induction k arbitrary: i s ws)
  case 0
  then have "[i ..< m] = i # [Suc i ..< m]" by (simp add: upt_conv_Cons)
  then show ?case using 0 by (cases e) (simp_all add: try_reward_raises[where e = e])
next
  case (Suc k)
  have r: "[i ..< m] = i # [Suc i ..< m]" using Suc.prems(4) by (simp add: upt_conv_Cons)
  have f0: "fst (f texts s) = Raises RuntimeError" using Suc.prems(1) by force
  let ?s = "snd (f texts s)"
  have a: "\<forall>j<k. fst (f texts (after_calls f texts j ?s)) = Raises RuntimeError"
    using Suc.prems(1) by (auto simp: after_calls_shift[symmetric])
  have b: "fst (f texts (after_calls f texts k ?s)) = Raises e"
    using Suc.prems(2) by (simp only: after_calls_shift[symmetric])
  have c: "Suc i + k < m" using Suc.prems(4) by simp
  have w: "[i ..< i + Suc k] = i # [Suc i ..< Suc i + k]" by (simp add: upt_conv_Cons)
  have ne: "i \<noteq> m - 1" using Suc.prems(4) by simp
  have "attempts [i ..< m] m f texts reward s ws =
          attempts [Suc i ..< m] m f texts reward ?s (ws @ [TryingAgain (i + 1) m])"
    unfolding r using ne f0 by (simp add: try_reward_raises[where e = RuntimeError])
  also have "\<dots> = (Inl e, after_calls f texts (Suc k) ?s,
      (ws @ [TryingAgain (i + 1) m]) @ map (\<lambda>j. TryingAgain (j + 1) m) [Suc i ..< Suc i + k])"
    by (rule Suc.IH[OF a b Suc.prems(3) c])
  finally show ?case by (simp only: w after_calls_shift[symmetric] list.map append.simps append_assoc)
qed

lemma attempts_exhausted:
  assumes "\<forall>j<Suc k. fst (f texts (after_calls f texts j s)) = Raises RuntimeError"
      and "i + Suc k = m"
  shows "attempts [i ..< m] m f texts reward s ws =
           (Inl RuntimeError, after_calls f texts (Suc k) s,
            ws @ map (\<lambda>j. TryingAgain (j + 1) m) [i ..< i + k])"
  using assms
proof (induction k arbitrary: i s ws)
  case 0
  then have r: "[i ..< m] = [i]" and l: "i = m - 1" by auto
  have f0: "fst (f texts s) = Raises RuntimeError" using "0.prems"(1) by force
  show ?case unfolding r using l f0 by (simp add: try_reward_raises[where e = RuntimeError])
next
  case (Suc k)
  have r: "[i ..< m] = i # [Suc i ..< m]" using Suc.prems(2) by (simp add: upt_conv_Cons)
  have f0: "fst (f texts s) = Raises RuntimeError" using Suc.prems(1) by force
  let ?s = "snd (f texts s)"
  have a: "\<forall>j<Suc k. fst (f texts (after_calls f texts j ?s)) = Raises RuntimeError"
  proof (intro allI impI)
    fix j assume "j < Suc k"
    then have "Suc j < Suc (Suc k)" by simp
    with Suc.prems(1) have "fst (f texts (after_calls f texts (Suc j) s)) = Raises RuntimeError"
      by blast
    then show "fst (f texts (after_calls f texts j ?s)) = Raises RuntimeError"
      by (simp only: after_calls_shift)
  qed
  have c: "Suc i + Suc k = m" using Suc.prems(2) by simp
  have w: "[i ..< i + Suc k] = i # [Suc i ..< Suc i + k]" by (simp add: upt_conv_Cons)
  have ne: "i \<noteq> m - 1" using Suc.prems(2) by simp
  have "attempts [i ..< m] m f texts reward s ws =
          attempts [Suc i ..< m] m f texts reward ?s (ws @ [TryingAgain (i + 1) m])"
    unfolding r using ne f0 by (simp add: try_reward_raises[where e = RuntimeError])
  also have "\<dots> = (Inl RuntimeError, after_calls f texts (Suc k) ?s,
      (ws @ [TryingAgain (i + 1) m]) @ map (\<lambda>j. TryingAgain (j + 1) m) [Suc i ..< Suc i + k])"
    by (rule Suc.IH[OF a c])
  finally show ?case by (simp only: w after_calls_shift[symmetric] list.map append.simps append_assoc)
qed

lemma call_unfold:
  assumes "get_sub_tensordict next_done td \<noteq> []"
      and "decode_all dec (map next_SMILES (get_sub_tensordict next_done td)) = Inr texts"
  shows "call dec f scale td s =
     (case attempts [0 ..< 3] 3 f texts (map next_reward (get_sub_tensordict next_done td)) s [] of
        (Inl e, s', ws) \<Rightarrow> (Inl e, s', ws)
      | (Inr reward', s', ws) \<Rightarrow>
          (Inr (set_sub_tensordict next_done set_reward td (map (\<lambda>r. r * scale) reward')),
           s', ws))"
  using assms by (simp add: call_def Let_def)

lemma texts_length:
  assumes "decode_all dec (map next_SMILES sub) = Inr texts"
  shows "length texts = length sub"
  using decode_all_nth[OF assms] by simp

lemma example_batch_texts:
  "get_sub_tensordict next_done example_batch \<noteq> []"
  "decode_all (decode example_vocabulary)
     (map next_SMILES (get_sub_tensordict next_done example_batch)) = Inr [''CO'', ''N'']"
  by code_simp+

section \<open>The reward transform\<close>

text \<open>
  Claim C2. For a batch with at least one step whose \<open>done\<close> flag is set, whose flagged
  sequences decode, and a scoring function that returns one score per text after fewer
  than three transient failures: \<open>_call\<close> succeeds with a batch of the same shape, in which
  every flagged step has the reward (old reward + the score of its decoded text) times
  the reward scale, the score being added to the old reward, and every other step is
  unchanged. The score of a step is the entry of the scoring output at the step's
  position among the flagged steps, where the list of texts holds its decoded text.
\<close>

theorem call_adds_score_and_scales:
  fixes scale :: "'r::{plus,times}"
  assumes "get_sub_tensordict next_done td \<noteq> []"
      and "decode_all dec (map next_SMILES (get_sub_tensordict next_done td)) = Inr texts"
      and "k < 3"
      and "\<forall>j<k. fst (f texts (after_calls f texts j s)) = Raises RuntimeError"
      and "fst (f texts (after_calls f texts k s)) = Returns scores"
      and "length scores = length texts"
  shows "\<exists>td'. fst (call dec f scale td s) = Inr td'
           \<and> length td' = length td
           \<and> (\<forall>b<length td. length (td' ! b) = length (td ! b)
                \<and> (\<forall>t<length (td ! b).
                      (next_done (td ! b ! t) \<longrightarrow>
                         dec (next_SMILES (td ! b ! t)) [-1]
                           = Inr (texts ! sub_index next_done td b t)
                         \<and> td' ! b ! t = (td ! b ! t)
                             \<lparr> next_reward :=
                                 (next_reward (td ! b ! t) + scores ! sub_index next_done td b t)
                                   * scale \<rparr>)
                    \<and> (\<not> next_done (td ! b ! t) \<longrightarrow> td' ! b ! t = td ! b ! t)))"
proof -
  let ?sub = "get_sub_tensordict next_done td"
  let ?reward = "map next_reward ?sub"
  let ?vs = "map (\<lambda>r. r * scale) (map2 (+) ?reward scores)"
  let ?td' = "set_sub_tensordict next_done set_reward td ?vs"
  have n: "length texts = length ?sub" by (rule texts_length[OF assms(2)])
  have ls: "length scores = length ?reward" using assms(6) n by simp
  have "attempts [0 ..< 3] 3 f texts ?reward s [] =
          (Inr (map2 (+) ?reward scores), after_calls f texts (Suc k) s,
           [] @ map (\<lambda>j. TryingAgain (j + 1) 3) [0 ..< 0 + k])"
    using assms(3) by (intro attempts_success[OF assms(4) assms(5) ls]) simp
  then have res: "fst (call dec f scale td s) = Inr ?td'"
    by (simp add: call_unfold[OF assms(1,2)])
  have lv: "length ?sub \<le> length ?vs" using ls by simp
  have step: "?td' ! b ! t =
      (if next_done (td ! b ! t)
       then (td ! b ! t) \<lparr> next_reward :=
              (next_reward (td ! b ! t) + scores ! sub_index next_done td b t) * scale \<rparr>
       else td ! b ! t)"
    and dectext: "next_done (td ! b ! t) \<Longrightarrow>
       dec (next_SMILES (td ! b ! t)) [-1] = Inr (texts ! sub_index next_done td b t)"
    if b: "b < length td" and t: "t < length (td ! b)" for b t
  proof -
    let ?k = "sub_index next_done td b t"
    show "?td' ! b ! t =
      (if next_done (td ! b ! t)
       then (td ! b ! t) \<lparr> next_reward := (next_reward (td ! b ! t) + scores ! ?k) * scale \<rparr>
       else td ! b ! t)"
    proof (cases "next_done (td ! b ! t)")
      case False
      then show ?thesis using set_sub_tensordict_step[OF b t lv, of set_reward] by simp
    next
      case True
      have k: "?k < length ?sub" and e: "?sub ! ?k = td ! b ! t"
        using sub_index_nth[OF b t, of next_done] True by simp_all
      have "?vs ! ?k = (next_reward (td ! b ! t) + scores ! ?k) * scale"
        using k ls e by simp
      then show ?thesis
        using set_sub_tensordict_step[OF b t lv, of set_reward] True
        by (simp add: set_reward_def)
    qed
    show "dec (next_SMILES (td ! b ! t)) [-1] = Inr (texts ! ?k)" if "next_done (td ! b ! t)"
    proof -
      have k: "?k < length ?sub" and e: "?sub ! ?k = td ! b ! t"
        using sub_index_nth[OF b t, of next_done] that by simp_all
      from decode_all_nth[OF assms(2)] k
      have "dec (map next_SMILES ?sub ! ?k) [-1] = Inr (texts ! ?k)" by simp
      then show ?thesis using k e by simp
    qed
  qed
  have "length ?td' = length td" by (rule set_sub_tensordict_length)
  moreover have "\<forall>b<length td. length (?td' ! b) = length (td ! b)
                \<and> (\<forall>t<length (td ! b).
                      (next_done (td ! b ! t) \<longrightarrow>
                         dec (next_SMILES (td ! b ! t)) [-1]
                           = Inr (texts ! sub_index next_done td b t)
                         \<and> ?td' ! b ! t = (td ! b ! t)
                             \<lparr> next_reward :=
                                 (next_reward (td ! b ! t) + scores ! sub_index next_done td b t)
                                   * scale \<rparr>)
                    \<and> (\<not> next_done (td ! b ! t) \<longrightarrow> ?td' ! b ! t = td ! b ! t))"
    using step dectext by (simp add: set_sub_tensordict_shape)
  ultimately show ?thesis using res by blast
qed

theorem call_adds_score_and_scales_witness:
  "get_sub_tensordict next_done example_batch \<noteq> []
   \<and> decode_all (decode example_vocabulary)
         (map next_SMILES (get_sub_tensordict next_done example_batch)) = Inr [''CO'', ''N'']
   \<and> fst (flaky_reward_function 1 [''CO'', ''N''] 0) = Raises RuntimeError
   \<and> fst (flaky_reward_function 1 [''CO'', ''N''] 1) = Returns [2, 1]
   \<and> (\<exists>td'. fst (call (decode example_vocabulary) (flaky_reward_function 1) 2 example_batch 0)
                = Inr td'
          \<and> next_reward (td' ! 0 ! 2) = (0 + 2) * 2
          \<and> next_reward (td' ! 1 ! 1) = (5 + 1) * 2
          \<and> td' ! 1 ! 2 = example_batch ! 1 ! 2)"
proof -
  let ?f = "flaky_reward_function 1"
  let ?texts = "[''CO'', ''N'']"
  have f0: "fst (?f ?texts 0) = Raises RuntimeError"
    and f1: "fst (?f ?texts 1) = Returns [2, 1]"
    by (simp_all add: flaky_reward_function_def)
  have a: "\<forall>j<1. fst (?f ?texts (after_calls ?f ?texts j 0)) = Raises RuntimeError"
    using f0 by simp
  have b: "fst (?f ?texts (after_calls ?f ?texts 1 0)) = Returns [2, 1]"
    by (simp add: flaky_reward_function_def)
  have l: "length [2, 1 :: int] = length ?texts" by simp
  have k: "(1::nat) < 3" by simp
  from call_adds_score_and_scales[OF example_batch_texts k a b l, of 2]
  obtain td' where r: "fst (call (decode example_vocabulary) ?f 2 example_batch 0) = Inr td'"
    and st: "\<forall>b<length example_batch. length (td' ! b) = length (example_batch ! b)
      \<and> (\<forall>t<length (example_batch ! b).
            (next_done (example_batch ! b ! t) \<longrightarrow>
               decode example_vocabulary (next_SMILES (example_batch ! b ! t)) [-1]
                 = Inr (?texts ! sub_index next_done example_batch b t)
               \<and> td' ! b ! t = (example_batch ! b ! t)
                   \<lparr> next_reward :=
                       (next_reward (example_batch ! b ! t)
                          + [2, 1] ! sub_index next_done example_batch b t) * 2 \<rparr>)
          \<and> (\<not> next_done (example_batch ! b ! t) \<longrightarrow> td' ! b ! t = example_batch ! b ! t))"
    by blast
  have len: "0 < length example_batch" "1 < length example_batch"
    "2 < length (example_batch ! 0)" "1 < length (example_batch ! 1)"
    "2 < length (example_batch ! 1)"
    by code_simp+
  have d: "next_done (example_batch ! 0 ! 2)" "next_done (example_batch ! 1 ! 1)"
    "\<not> next_done (example_batch ! 1 ! 2)"
    by code_simp+
  have v: "next_reward (example_batch ! 0 ! 2) + [2, 1] ! sub_index next_done example_batch 0 2 = 0 + 2"
    "next_reward (example_batch ! 1 ! 1) + [2, 1] ! sub_index next_done example_batch 1 1 = 5 + 1"
    by code_simp+
  from st len(1,3) d(1) have "td' ! 0 ! 2 = (example_batch ! 0 ! 2)
      \<lparr> next_reward := (next_reward (example_batch ! 0 ! 2)
                          + [2, 1] ! sub_index next_done example_batch 0 2) * 2 \<rparr>"
    by blast
  then have r1: "next_reward (td' ! 0 ! 2) = (0 + 2) * 2" using v(1) by simp
  from st len(2,4) d(2) have "td' ! 1 ! 1 = (example_batch ! 1 ! 1)
      \<lparr> next_reward := (next_reward (example_batch ! 1 ! 1)
                          + [2, 1] ! sub_index next_done example_batch 1 1) * 2 \<rparr>"
    by blast
  then have r2: "next_reward (td' ! 1 ! 1) = (5 + 1) * 2" using v(2) by simp
  from st len(2,5) d(3) have r3: "td' ! 1 ! 2 = example_batch ! 1 ! 2" by blast
  show ?thesis using example_batch_texts f0 f1 r r1 r2 r3 by blast
qed

text \<open>
  The transform of \<open>acegen/transforms/reward_transform.py\<close> has no scale: a step whose
  \<open>terminated\<close> flag is set gets its old reward plus its score.
\<close>

lemma forward_adds_score:
  fixes f :: "('s, 'r::plus) reward_function"
  assumes "get_sub_tensordict next_terminated td \<noteq> []"
      and "decode_all dec (map next_SMILES (get_sub_tensordict next_terminated td)) = Inr texts"
      and "f texts s = (Returns scores, s')"
      and "length scores = length texts"
      and "b < length td" and "t < length (td ! b)"
  shows "\<exists>td'. forward dec f td s = (Inr td', s')
           \<and> td' ! b ! t =
               (if next_terminated (td ! b ! t)
                then (td ! b ! t)
                       \<lparr> next_reward := next_reward (td ! b ! t)
                                          + scores ! sub_index next_terminated td b t \<rparr>
                else td ! b ! t)"
proof -
  let ?sub = "get_sub_tensordict next_terminated td"
  let ?reward = "map next_reward ?sub"
  let ?vs = "map2 (+) ?reward scores"
  let ?k = "sub_index next_terminated td b t"
  have ls: "length scores = length ?reward"
    using assms(4) texts_length[OF assms(2)] by simp
  have fw: "forward dec f td s = (Inr (set_sub_tensordict next_terminated set_reward td ?vs), s')"
    using assms(1,2,3) ls by (simp add: forward_def Let_def)
  have lv: "length ?sub \<le> length ?vs" using ls by simp
  have "set_sub_tensordict next_terminated set_reward td ?vs ! b ! t =
               (if next_terminated (td ! b ! t)
                then (td ! b ! t) \<lparr> next_reward := next_reward (td ! b ! t) + scores ! ?k \<rparr>
                else td ! b ! t)"
  proof (cases "next_terminated (td ! b ! t)")
    case False
    then show ?thesis
      using set_sub_tensordict_step[OF assms(5,6) lv, of set_reward] by simp
  next
    case True
    have k: "?k < length ?sub" and e: "?sub ! ?k = td ! b ! t"
      using sub_index_nth[OF assms(5,6), of next_terminated] True by simp_all
    have "?vs ! ?k = next_reward (td ! b ! t) + scores ! ?k" using k ls e by simp
    then show ?thesis
      using set_sub_tensordict_step[OF assms(5,6) lv, of set_reward] True
      by (simp add: set_reward_def)
  qed
  then show ?thesis using fw by simp
qed

text \<open>
  Claim C3. For a batch with a flagged step whose flagged sequences decode: when the scoring
  function raises \<open>RuntimeError\<close> in three successive calls, \<open>_call\<close> raises \<open>RuntimeError\<close>
  after exactly these three calls and two warnings (attempts 1/3 and 2/3); when it raises
  \<open>RuntimeError\<close> in its first \<open>k < 3\<close> calls and then returns one score per text, \<open>_call\<close>
  succeeds after \<open>k + 1\<close> calls and \<open>k\<close> warnings; and an exception of another class in
  call \<open>k + 1\<close> is raised at once, without a further call.
\<close>

theorem call_retries_transient_failures:
  fixes scale :: "'r::{plus,times}"
  assumes "get_sub_tensordict next_done td \<noteq> []"
      and "decode_all dec (map next_SMILES (get_sub_tensordict next_done td)) = Inr texts"
  shows "((\<forall>j<3. fst (f texts (after_calls f texts j s)) = Raises RuntimeError) \<longrightarrow>
            call dec f scale td s =
              (Inl RuntimeError, after_calls f texts 3 s, [TryingAgain 1 3, TryingAgain 2 3]))
       \<and> (\<forall>k<3. (\<forall>j<k. fst (f texts (after_calls f texts j s)) = Raises RuntimeError) \<longrightarrow>
            (\<forall>scores. fst (f texts (after_calls f texts k s)) = Returns scores
                 \<and> length scores = length texts \<longrightarrow>
               (\<exists>td'. call dec f scale td s =
                  (Inr td', after_calls f texts (Suc k) s,
                   map (\<lambda>j. TryingAgain (Suc j) 3) [0 ..< k])))
          \<and> (\<forall>e. fst (f texts (after_calls f texts k s)) = Raises e \<and> e \<noteq> RuntimeError \<longrightarrow>
               call dec f scale td s =
                 (Inl e, after_calls f texts (Suc k) s,
                  map (\<lambda>j. TryingAgain (Suc j) 3) [0 ..< k])))"
proof (intro conjI allI impI)
  let ?reward = "map next_reward (get_sub_tensordict next_done td)"
  assume a: "\<forall>j<3. fst (f texts (after_calls f texts j s)) = Raises RuntimeError"
  have "attempts [0 ..< 3] 3 f texts ?reward s [] =
          (Inl RuntimeError, after_calls f texts (Suc 2) s,
           [] @ map (\<lambda>j. TryingAgain (j + 1) 3) [0 ..< 0 + 2])"
    using a by (intro attempts_exhausted) (simp_all add: eval_nat_numeral)
  moreover have "map (\<lambda>j. TryingAgain (j + 1) 3) [0 ..< 0 + 2] = [TryingAgain 1 3, TryingAgain 2 3]"
    by (simp add: upt_rec eval_nat_numeral)
  ultimately show "call dec f scale td s =
     (Inl RuntimeError, after_calls f texts 3 s, [TryingAgain 1 3, TryingAgain 2 3])"
    by (simp add: call_unfold[OF assms] eval_nat_numeral)
next
  let ?reward = "map next_reward (get_sub_tensordict next_done td)"
  fix k scores
  assume k: "k < 3"
    and a: "\<forall>j<k. fst (f texts (after_calls f texts j s)) = Raises RuntimeError"
    and b: "fst (f texts (after_calls f texts k s)) = Returns scores \<and> length scores = length texts"
  have ls: "length scores = length ?reward" using b texts_length[OF assms(2)] by simp
  have "attempts [0 ..< 3] 3 f texts ?reward s [] =
          (Inr (map2 (+) ?reward scores), after_calls f texts (Suc k) s,
           [] @ map (\<lambda>j. TryingAgain (j + 1) 3) [0 ..< 0 + k])"
    using k b by (intro attempts_success[OF a _ ls]) simp_all
  then show "\<exists>td'. call dec f scale td s =
     (Inr td', after_calls f texts (Suc k) s, map (\<lambda>j. TryingAgain (Suc j) 3) [0 ..< k])"
    by (simp add: call_unfold[OF assms])
next
  let ?reward = "map next_reward (get_sub_tensordict next_done td)"
  fix k e
  assume k: "k < 3"
    and a: "\<forall>j<k. fst (f texts (after_calls f texts j s)) = Raises RuntimeError"
    and b: "fst (f texts (after_calls f texts k s)) = Raises e \<and> e \<noteq> RuntimeError"
  have "attempts [0 ..< 3] 3 f texts ?reward s [] =
          (Inl e, after_calls f texts (Suc k) s,
           [] @ map (\<lambda>j. TryingAgain (j + 1) 3) [0 ..< 0 + k])"
    using k b by (intro attempts_other[OF a]) simp_all
  then show "call dec f scale td s =
     (Inl e, after_calls f texts (Suc k) s, map (\<lambda>j. TryingAgain (Suc j) 3) [0 ..< k])"
    by (simp add: call_unfold[OF assms])
qed

theorem call_retries_transient_failures_witness:
  "get_sub_tensordict next_done example_batch \<noteq> []
   \<and> decode_all (decode example_vocabulary)
         (map next_SMILES (get_sub_tensordict next_done example_batch)) = Inr [''CO'', ''N'']
   \<and> call (decode example_vocabulary) (flaky_reward_function 3) 2 example_batch 0
       = (Inl RuntimeError, 3, [TryingAgain 1 3, TryingAgain 2 3])
   \<and> (\<exists>td'. call (decode example_vocabulary) (flaky_reward_function 2) 2 example_batch 0
                = (Inr td', 3, [TryingAgain 1 3, TryingAgain 2 3]))
   \<and> call (decode example_vocabulary) broken_reward_function 2 example_batch 0
       = (Inl OtherException, 1, [])"
proof -
  let ?texts = "[''CO'', ''N'']"
  have c: "after_calls (flaky_reward_function n) ?texts j 0 = j" for n j
    by (induction j) (simp_all add: flaky_reward_function_def)
  have a3: "\<forall>j<3. fst (flaky_reward_function 3 ?texts (after_calls (flaky_reward_function 3) ?texts j 0))
              = Raises RuntimeError"
    by (simp add: c flaky_reward_function_def)
  have a2: "\<forall>j<2. fst (flaky_reward_function 2 ?texts (after_calls (flaky_reward_function 2) ?texts j 0))
              = Raises RuntimeError"
    by (simp add: c flaky_reward_function_def)
  have b2: "fst (flaky_reward_function 2 ?texts (after_calls (flaky_reward_function 2) ?texts 2 0))
              = Returns [2, 1]
            \<and> length [2, 1 :: int] = length ?texts"
    by (simp add: c flaky_reward_function_def)
  have w: "map (\<lambda>j. TryingAgain (Suc j) 3) [0 ..< 2] = [TryingAgain 1 3, TryingAgain 2 3]"
    by (simp add: upt_rec eval_nat_numeral)
  note th = call_retries_transient_failures[OF example_batch_texts, of _ 0 2]
  from th[of "flaky_reward_function 3"] a3
  have 1: "call (decode example_vocabulary) (flaky_reward_function 3) 2 example_batch 0
       = (Inl RuntimeError, 3, [TryingAgain 1 3, TryingAgain 2 3])"
    by (simp only: c simp_thms)
  have k: "(2::nat) < 3" by simp
  from th[of "flaky_reward_function 2"] k a2 b2
  have "\<exists>td'. call (decode example_vocabulary) (flaky_reward_function 2) 2 example_batch 0 =
     (Inr td', after_calls (flaky_reward_function 2) ?texts (Suc 2) 0,
      map (\<lambda>j. TryingAgain (Suc j) 3) [0 ..< 2])"
    by blast
  then have 2: "\<exists>td'. call (decode example_vocabulary) (flaky_reward_function 2) 2 example_batch 0
                = (Inr td', 3, [TryingAgain 1 3, TryingAgain 2 3])"
    unfolding c w by simp
  have k0: "(0::nat) < 3" by simp
  have b0: "fst (broken_reward_function ?texts (after_calls broken_reward_function ?texts 0 0))
              = Raises OtherException \<and> OtherException \<noteq> RuntimeError"
    by (simp add: broken_reward_function_def)
  from th[of broken_reward_function] k0 b0
  have "call (decode example_vocabulary) broken_reward_function 2 example_batch 0 =
     (Inl OtherException, after_calls broken_reward_function ?texts (Suc 0) 0,
      map (\<lambda>j. TryingAgain (Suc j) 3) [0 ..< 0])"
    by blast
  then have 3: "call (decode example_vocabulary) broken_reward_function 2 example_batch 0
       = (Inl OtherException, 1, [])"
    by (simp add: broken_reward_function_def)
  show ?thesis using example_batch_texts 1 2 3 by blast
qed

text \<open>
  Claim C5. A batch with no step whose \<open>done\<close> flag is set is returned unchanged by
  \<open>_call\<close>, and one with no step whose \<open>terminated\<close> flag is set is returned unchanged by
  the \<open>forward\<close> of \<open>reward_transform.py\<close>; neither calls the scoring function nor warns.
\<close>

theorem no_terminal_step_no_change:
  "((\<forall>row\<in>set td. \<forall>st\<in>set row. \<not> next_done st) \<longrightarrow>
       call dec f scale td s = (Inr td, s, []))
   \<and> ((\<forall>row\<in>set td. \<forall>st\<in>set row. \<not> next_terminated st) \<longrightarrow>
       forward dec f td s = (Inr td, s))"
  by (simp add: call_def forward_def Let_def get_sub_tensordict_empty)

theorem no_terminal_step_no_change_witness:
  "list_all (list_all (\<lambda>st. \<not> next_done st)) running_batch
   \<and> list_all (list_all (\<lambda>st. \<not> next_terminated st)) running_batch
   \<and> call (decode example_vocabulary) dummy_reward_function 2 running_batch 0
       = (Inr running_batch, 0, [])
   \<and> forward (decode example_vocabulary) dummy_reward_function running_batch 0
       = (Inr running_batch, 0)"
proof -
  have d: "\<forall>row\<in>set running_batch. \<forall>st\<in>set row. \<not> next_done st" by code_simp
  have t: "\<forall>row\<in>set running_batch. \<forall>st\<in>set row. \<not> next_terminated st" by code_simp
  from no_terminal_step_no_change[of running_batch "decode example_vocabulary"
      dummy_reward_function 2 0] d t
  have "call (decode example_vocabulary) dummy_reward_function 2 running_batch 0
       = (Inr running_batch, 0, [])"
    and "forward (decode example_vocabulary) dummy_reward_function running_batch 0
       = (Inr running_batch, 0)"
    by blast+
  then show ?thesis using d t by (simp add: list_all_iff)
qed

section \<open>The two reward transforms compared\<close>

lemma get_entries_length: "get_entries k sts = Inr rs \<Longrightarrow> length rs = length sts"
  by (induction sts arbitrary: rs) (auto split: sum.splits)

lemma get_entries_view:
  "(\<forall>st\<in>set sts. map_of (reward_entries st) k \<noteq> None) \<Longrightarrow>
   get_entries k sts = Inr (map (\<lambda>st. next_reward (reward_view k st)) sts)"
  by (induction sts) (auto simp: getitem_def reward_view_def)

lemma reward_view_simps:
  "next_done (reward_view k st) = done_entry st"
  "next_terminated (reward_view k st) = terminated_entry st"
  "next_SMILES (reward_view k st) = SMILES_entry st"
  "reward_view k (set_entry k r st) = set_reward r (reward_view k st)"
  "done_entry (set_entry k r st) = done_entry st"
  "terminated_entry (set_entry k r st) = terminated_entry st"
  by (simp_all add: reward_view_def set_entry_def set_reward_def update_conv')

lemma get_sub_tensordict_map:
  "(\<And>x. g (v x) = f x) \<Longrightarrow>
   get_sub_tensordict g (map (map v) td) = map v (get_sub_tensordict f td)"
  by (simp add: get_sub_tensordict_def map_concat[symmetric] filter_map comp_def)

lemma set_row_map:
  assumes "\<And>x. g (v x) = f x" and "\<And>w x. v (u w x) = u' w (v x)"
  shows "set_row g u' (map v xs) vs = map v (set_row f u xs vs)"
  by (induction xs arbitrary: vs) (auto simp: assms split: list.splits)

lemma set_sub_tensordict_map:
  assumes "\<And>x. g (v x) = f x" and "\<And>w x. v (u w x) = u' w (v x)"
  shows "set_sub_tensordict g u' (map (map v) td) vs = map (map v) (set_sub_tensordict f u td vs)"
proof (induction td arbitrary: vs)
  case Nil
  show ?case by simp
next
  case (Cons row rows)
  have "filter g (map v row) = map v (filter f row)"
    by (simp add: filter_map comp_def assms(1))
  then have "length (filter g (map v row)) = length (filter f row)" by simp
  then show ?case
    using set_row_map[of g v f u u' row vs, OF assms] by (simp add: Cons.IH)
qed

text \<open>
  On a batch that holds the entry, the transforms with keys are the transforms of the
  sections before, seen through the entry they name.
\<close>

lemma call_keyed_view:
  fixes scale :: "'r::{plus,times}"
  assumes "\<forall>row\<in>set td. \<forall>st\<in>set row. map_of (reward_entries st) k \<noteq> None"
  shows "call dec f scale (map (map (reward_view k)) td) s =
           (case call_keyed dec f scale k td s of
              (Inl e, s', ws) \<Rightarrow> (Inl e, s', ws)
            | (Inr td', s', ws) \<Rightarrow> (Inr (map (map (reward_view k)) td'), s', ws))"
proof -
  let ?sub = "get_sub_tensordict done_entry td"
  have sub: "get_sub_tensordict next_done (map (map (reward_view k)) td)
               = map (reward_view k) ?sub"
    by (rule get_sub_tensordict_map) (simp add: reward_view_simps)
  have "\<forall>st\<in>set ?sub. map_of (reward_entries st) k \<noteq> None"
    using assms by (auto simp: get_sub_tensordict_def)
  then have ge: "get_entries k ?sub = Inr (map (\<lambda>st. next_reward (reward_view k st)) ?sub)"
    by (rule get_entries_view)
  have setv: "set_sub_tensordict next_done set_reward (map (map (reward_view k)) td) vs
               = map (map (reward_view k)) (set_sub_tensordict done_entry (set_entry k) td vs)"
    for vs :: "'r list"
    by (rule set_sub_tensordict_map) (simp_all add: reward_view_simps)
  show ?thesis
    by (simp add: call_def call_keyed_def Let_def sub ge setv comp_def reward_view_simps
        split: sum.splits prod.splits)
qed

lemma forward_keyed_view:
  fixes f :: "('s, 'r::plus) reward_function"
  assumes "\<forall>row\<in>set td. \<forall>st\<in>set row. map_of (reward_entries st) ''reward'' \<noteq> None"
  shows "forward dec f (map (map (reward_view ''reward'')) td) s =
           (case forward_keyed dec f out_key td s of
              (Inl e, s') \<Rightarrow> (Inl e, s')
            | (Inr td', s') \<Rightarrow> (Inr (map (map (reward_view ''reward'')) td'), s'))"
proof -
  let ?k = "''reward''"
  let ?sub = "get_sub_tensordict terminated_entry td"
  have sub: "get_sub_tensordict next_terminated (map (map (reward_view ?k)) td)
               = map (reward_view ?k) ?sub"
    by (rule get_sub_tensordict_map) (simp add: reward_view_simps)
  have "\<forall>st\<in>set ?sub. map_of (reward_entries st) ?k \<noteq> None"
    using assms by (auto simp: get_sub_tensordict_def)
  then have ge: "get_entries ?k ?sub = Inr (map (\<lambda>st. next_reward (reward_view ?k st)) ?sub)"
    by (rule get_entries_view)
  have setv: "set_sub_tensordict next_terminated set_reward (map (map (reward_view ?k)) td) vs
               = map (map (reward_view ?k))
                   (set_sub_tensordict terminated_entry (set_entry ?k) td vs)"
    for vs :: "'r list"
    by (rule set_sub_tensordict_map) (simp_all add: reward_view_simps)
  show ?thesis
    by (simp add: forward_def forward_keyed_def Let_def sub ge setv comp_def reward_view_simps
        split: sum.splits prod.splits outcome.splits)
qed

text \<open>
  Claim C10, as amended. For a batch whose \<open>done\<close> and \<open>terminated\<close> flags coincide at
  every step, a reward scale of 1, \<open>out_keys[0] = "reward"\<close>, and a scoring function whose
  first call returns exactly one score per decoded text, \<open>_call\<close> of
  \<open>examples/ppo/utils.py\<close> and \<open>forward\<close> of \<open>acegen/transforms/reward_transform.py\<close> have
  the same result (the same batch, or the same error of the entry lookup or of the
  decoding) and leave the scoring function in the same state, and \<open>_call\<close> emits no
  warning.
\<close>

theorem reward_transforms_agree_on_reward_key:
  fixes f :: "('s, 'r::{plus,monoid_mult}) reward_function"
  assumes "out_key = ''reward''"
      and "\<forall>row\<in>set td. \<forall>st\<in>set row. done_entry st = terminated_entry st"
      and "\<forall>texts. decode_all dec (map SMILES_entry (get_sub_tensordict done_entry td)) = Inr texts
             \<longrightarrow> (\<exists>scores. fst (f texts s) = Returns scores \<and> length scores = length texts)"
  shows "call_keyed dec f 1 out_key td s =
           (fst (forward_keyed dec f out_key td s), snd (forward_keyed dec f out_key td s), [])"
proof -
  let ?sub = "get_sub_tensordict done_entry td"
  have sub: "get_sub_tensordict terminated_entry td = ?sub"
    using get_sub_tensordict_cong[OF assms(2)] by simp
  have set: "set_sub_tensordict terminated_entry (set_entry ''reward'') td vs
               = set_sub_tensordict done_entry (set_entry ''reward'') td vs" for vs :: "'r list"
    using set_sub_tensordict_cong[OF assms(2), of "set_entry ''reward''" vs] by simp
  show ?thesis
  proof (cases "?sub = []")
    case True
    then show ?thesis by (simp add: call_keyed_def forward_keyed_def Let_def sub)
  next
    case False
    show ?thesis
    proof (cases "get_entries ''reward'' ?sub")
      case (Inl e)
      then show ?thesis
        using False by (simp add: call_keyed_def forward_keyed_def Let_def sub assms(1))
    next
      case reward: (Inr reward)
      show ?thesis
      proof (cases "decode_all dec (map SMILES_entry ?sub)")
        case (Inl e)
        then show ?thesis
          using False reward
          by (simp add: call_keyed_def forward_keyed_def Let_def sub assms(1))
      next
        case (Inr texts)
        from assms(3) Inr obtain scores where sc: "fst (f texts s) = Returns scores"
          and ln: "length scores = length texts" by blast
        have "length texts = length (map SMILES_entry ?sub)"
          using decode_all_nth[OF Inr] by simp
        then have ls: "length scores = length reward"
          using ln get_entries_length[OF reward] by simp
        have at: "attempts [0 ..< 3] 3 f texts reward s [] =
            (Inr (map2 (+) reward scores), after_calls f texts (Suc 0) s,
             [] @ map (\<lambda>j. TryingAgain (j + 1) 3) [0 ..< 0 + 0])"
          using sc by (intro attempts_success[OF _ _ ls]) simp_all
        have c: "call_keyed dec f 1 out_key td s =
            (Inr (set_sub_tensordict done_entry (set_entry ''reward'') td
                    (map2 (+) reward scores)),
             snd (f texts s), [])"
          using at False reward Inr by (simp add: call_keyed_def Let_def assms(1))
        obtain s' where fs: "f texts s = (Returns scores, s')"
          using sc by (cases "f texts s") simp
        have "forward_keyed dec f out_key td s =
            (Inr (set_sub_tensordict done_entry (set_entry ''reward'') td
                    (map2 (+) reward scores)), s')"
          using False reward Inr fs ls by (simp add: forward_keyed_def Let_def sub set)
        then show ?thesis using c fs by simp
      qed
    qed
  qed
qed

theorem reward_transforms_agree_on_reward_key_witness:
  "map (map done_entry) keyed_batch = map (map terminated_entry) keyed_batch
   \<and> fst (dummy_reward_function [''CO'', ''N''] 0) = Returns [1, 1]
   \<and> call_keyed (decode example_vocabulary) dummy_reward_function 1 ''reward'' keyed_batch 0
       = (fst (forward_keyed (decode example_vocabulary) dummy_reward_function ''reward''
                 keyed_batch 0),
          snd (forward_keyed (decode example_vocabulary) dummy_reward_function ''reward''
                 keyed_batch 0), [])
   \<and> forward_keyed (decode example_vocabulary) dummy_reward_function ''reward'' keyed_batch 0
       = (Inr (set_sub_tensordict terminated_entry (set_entry ''reward'') keyed_batch [0 + 1, 5 + 1]),
          1)"
proof -
  have d: "\<forall>row\<in>set keyed_batch. \<forall>st\<in>set row. done_entry st = terminated_entry st"
    by code_simp
  have m: "map (map done_entry) keyed_batch = map (map terminated_entry) keyed_batch"
    by code_simp
  have s: "\<forall>texts. decode_all (decode example_vocabulary)
                (map SMILES_entry (get_sub_tensordict done_entry keyed_batch)) = Inr texts
             \<longrightarrow> (\<exists>scores. fst (dummy_reward_function texts 0) = Returns scores
                     \<and> length scores = length texts)"
    by (simp add: dummy_reward_function_def)
  have f: "fst (dummy_reward_function [''CO'', ''N''] 0) = Returns [1, 1]"
    by (simp add: dummy_reward_function_def)
  have v: "forward_keyed (decode example_vocabulary) dummy_reward_function ''reward'' keyed_batch 0
       = (Inr (set_sub_tensordict terminated_entry (set_entry ''reward'') keyed_batch [0 + 1, 5 + 1]),
          1)"
    by code_simp
  have k: "''reward'' = ''reward''" by simp
  from reward_transforms_agree_on_reward_key[where td = keyed_batch
      and dec = "decode example_vocabulary" and f = dummy_reward_function and s = 0
      and out_key = "''reward''"] k d s
  have "call_keyed (decode example_vocabulary) dummy_reward_function 1 ''reward'' keyed_batch 0
       = (fst (forward_keyed (decode example_vocabulary) dummy_reward_function ''reward''
                 keyed_batch 0),
          snd (forward_keyed (decode example_vocabulary) dummy_reward_function ''reward''
                 keyed_batch 0), [])"
    by blast
  then show ?thesis using m f v by blast
qed

text \<open>
  The claim as stated fails for a scoring function whose first call succeeds with a single
  score for two texts: the flags coincide and the scale is 1, \<open>forward\<close> broadcasts the
  score to both terminal steps, and \<open>_call\<close> fails to reshape it, tries three times and
  raises \<open>RuntimeError\<close>.
\<close>

theorem single_score_counterexample:
  "map (map done_entry) keyed_batch = map (map terminated_entry) keyed_batch
   \<and> decode_all (decode example_vocabulary)
         (map SMILES_entry (get_sub_tensordict done_entry keyed_batch)) = Inr [''CO'', ''N'']
   \<and> single_score_function [''CO'', ''N''] 0 = (Returns [1], 1)
   \<and> call_keyed (decode example_vocabulary) single_score_function 1 ''reward'' keyed_batch 0
       = (Inl RuntimeError, 3, [TryingAgain 1 3, TryingAgain 2 3])
   \<and> forward_keyed (decode example_vocabulary) single_score_function ''reward'' keyed_batch 0
       = (Inr (set_sub_tensordict terminated_entry (set_entry ''reward'') keyed_batch [0 + 1, 5 + 1]),
          1)"
proof -
  have 1: "map (map done_entry) keyed_batch = map (map terminated_entry) keyed_batch"
    by code_simp
  have 2: "decode_all (decode example_vocabulary)
         (map SMILES_entry (get_sub_tensordict done_entry keyed_batch)) = Inr [''CO'', ''N'']"
    by code_simp
  have 3: "single_score_function [''CO'', ''N''] 0 = (Returns [1], 1)"
    by (simp add: single_score_function_def)
  have 4: "call_keyed (decode example_vocabulary) single_score_function 1 ''reward'' keyed_batch 0
       = (Inl RuntimeError, 3, [TryingAgain 1 3, TryingAgain 2 3])"
    by code_simp
  have 5: "forward_keyed (decode example_vocabulary) single_score_function ''reward'' keyed_batch 0
       = (Inr (set_sub_tensordict terminated_entry (set_entry ''reward'') keyed_batch [0 + 1, 5 + 1]),
          1)"
    by code_simp
  show ?thesis using 1 2 3 4 5 by blast
qed

text \<open>
  With another reward key the two differ as well: \<open>_call\<close> adds the scores to the entry
  \<open>reward2\<close>, \<open>forward\<close> to the entry \<open>reward\<close>.
\<close>

lemma other_out_key_disagrees:
  "fst (call_keyed (decode example_vocabulary) dummy_reward_function 1 ''reward2'' keyed_batch 0)
     = Inr (set_sub_tensordict done_entry (set_entry ''reward2'') keyed_batch [0 + 1, 0 + 1])
   \<and> fst (forward_keyed (decode example_vocabulary) dummy_reward_function ''reward2'' keyed_batch 0)
     = Inr (set_sub_tensordict terminated_entry (set_entry ''reward'') keyed_batch [0 + 1, 5 + 1])
   \<and> fst (call_keyed (decode example_vocabulary) dummy_reward_function 1 ''reward2'' keyed_batch 0)
     \<noteq> fst (forward_keyed (decode example_vocabulary) dummy_reward_function ''reward2'' keyed_batch 0)"
  by code_simp

section \<open>The repetition penalty\<close>

lemma repetition_penalty_Cons:
  "fst (repetition_penalty fp p ((tx, r) # rest) st) =
     (if fp tx \<in> archive st
      then p # fst (repetition_penalty fp p rest (st \<lparr> repeated_smiles := repeated_smiles st + 1 \<rparr>))
      else r # fst (repetition_penalty fp p rest (st \<lparr> archive := insert (fp tx) (archive st) \<rparr>)))"
  "snd (repetition_penalty fp p ((tx, r) # rest) st) =
     (if fp tx \<in> archive st
      then snd (repetition_penalty fp p rest (st \<lparr> repeated_smiles := repeated_smiles st + 1 \<rparr>))
      else snd (repetition_penalty fp p rest (st \<lparr> archive := insert (fp tx) (archive st) \<rparr>)))"
  by (simp_all split: prod.splits)

lemma repetition_penalty_length:
  "length (fst (repetition_penalty fp p batch st)) = length batch"
proof (induction batch arbitrary: st)
  case Nil
  show ?case by simp
next
  case (Cons x rest)
  obtain tx r where x: "x = (tx, r)" by (cases x)
  show ?case unfolding x by (simp only: repetition_penalty_Cons Cons.IH length_Cons if_distrib if_cancel)
qed

lemma repetition_penalty_archive:
  "archive (snd (repetition_penalty fp p batch st)) = archive st \<union> fp ` fst ` set batch"
proof (induction batch arbitrary: st)
  case Nil
  show ?case by simp
next
  case (Cons x rest)
  obtain tx r where x: "x = (tx, r)" by (cases x)
  show ?case
  proof (cases "fp tx \<in> archive st")
    case True
    then show ?thesis unfolding x
      by (simp add: repetition_penalty_Cons Cons.IH insert_absorb del: repetition_penalty.simps)
  next
    case False
    then show ?thesis unfolding x
      by (simp add: repetition_penalty_Cons Cons.IH del: repetition_penalty.simps)
  qed
qed

lemma repetition_penalty_nth:
  "n < length batch \<Longrightarrow>
   fst (repetition_penalty fp p batch st) ! n =
     (if fp (fst (batch ! n)) \<in> archive st \<union> fp ` fst ` set (take n batch) then p
      else snd (batch ! n))"
proof (induction batch arbitrary: st n)
  case Nil
  then show ?case by simp
next
  case (Cons x rest)
  obtain tx r where x: "x = (tx, r)" by (cases x)
  show ?case
  proof (cases n)
    case 0
    then show ?thesis unfolding x by (simp add: repetition_penalty_Cons del: repetition_penalty.simps)
  next
    case (Suc n')
    with Cons.prems have n': "n' < length rest" by simp
    show ?thesis
    proof (cases "fp tx \<in> archive st")
      case True
      then have "archive st \<union> fp ` fst ` set (take n (x # rest))
                   = archive st \<union> fp ` fst ` set (take n' rest)"
        using Suc x by auto
      then show ?thesis
        using Cons.IH[OF n', of "st \<lparr> repeated_smiles := repeated_smiles st + 1 \<rparr>"] True
        unfolding Suc x by (simp add: repetition_penalty_Cons del: repetition_penalty.simps)
    next
      case False
      have "archive st \<union> fp ` fst ` set (take n (x # rest))
                   = insert (fp tx) (archive st) \<union> fp ` fst ` set (take n' rest)"
        using Suc x by auto
      then show ?thesis
        using Cons.IH[OF n', of "st \<lparr> archive := insert (fp tx) (archive st) \<rparr>"] False
        unfolding Suc x by (simp add: repetition_penalty_Cons del: repetition_penalty.simps)
    qed
  qed
qed

text \<open>
  Claim C9. When two terminal trajectories \<open>i < j\<close> of a batch decode to the same text,
  whose fingerprint is not in the archive and is not the fingerprint of an earlier
  trajectory of the batch, the filter leaves the reward of trajectory \<open>i\<close> as it is,
  replaces the shaped reward of trajectory \<open>j\<close> by the penalty, and has the fingerprint
  in its archive afterwards.
\<close>

theorem first_occurrence_kept_second_penalised:
  assumes "i < j" and "j < length batch"
      and "fst (batch ! i) = fst (batch ! j)"
      and "fp (fst (batch ! i)) \<notin> archive st"
      and "\<forall>k<i. fp (fst (batch ! k)) \<noteq> fp (fst (batch ! i))"
  shows "fst (repetition_penalty fp penalty batch st) ! i = snd (batch ! i)
       \<and> fst (repetition_penalty fp penalty batch st) ! j = penalty
       \<and> fp (fst (batch ! i)) \<in> archive (snd (repetition_penalty fp penalty batch st))"
proof -
  have i: "i < length batch" using assms(1,2) by simp
  have "fp (fst (batch ! i)) \<notin> fp ` fst ` set (take i batch)"
  proof
    assume "fp (fst (batch ! i)) \<in> fp ` fst ` set (take i batch)"
    then obtain y where y: "y \<in> set (take i batch)" and e: "fp (fst (batch ! i)) = fp (fst y)"
      by auto
    from y obtain k where "k < length (take i batch)" and "take i batch ! k = y"
      by (auto simp: in_set_conv_nth)
    then have "k < i" and "batch ! k = y" by simp_all
    with assms(5) e show False by auto
  qed
  then have a: "fst (repetition_penalty fp penalty batch st) ! i = snd (batch ! i)"
    using repetition_penalty_nth[OF i, of fp penalty st] assms(4) by simp
  have "batch ! i \<in> set (take j batch)"
    using assms(1,2) by (auto simp: in_set_conv_nth intro!: exI[of _ i])
  then have "fp (fst (batch ! j)) \<in> fp ` fst ` set (take j batch)"
    using assms(3) by (metis imageI)
  then have b: "fst (repetition_penalty fp penalty batch st) ! j = penalty"
    using repetition_penalty_nth[OF assms(2), of fp penalty st] by simp
  have "batch ! i \<in> set batch" using i by simp
  then have c: "fp (fst (batch ! i)) \<in> archive (snd (repetition_penalty fp penalty batch st))"
    by (simp add: repetition_penalty_archive)
  show ?thesis using a b c by blast
qed

theorem first_occurrence_kept_second_penalised_witness:
  "fst (repetition_penalty (\<lambda>t. t) (-1 :: int)
          [(''CO'', 3), (''N'', 4), (''CO'', 5), (''CC'', 6)]
          \<lparr> archive = {''N''}, repeated_smiles = 0 \<rparr>) ! 0 = 3
   \<and> fst (repetition_penalty (\<lambda>t. t) (-1 :: int)
          [(''CO'', 3), (''N'', 4), (''CO'', 5), (''CC'', 6)]
          \<lparr> archive = {''N''}, repeated_smiles = 0 \<rparr>) ! 2 = -1
   \<and> ''CO'' \<in> archive (snd (repetition_penalty (\<lambda>t. t) (-1 :: int)
          [(''CO'', 3), (''N'', 4), (''CO'', 5), (''CC'', 6)]
          \<lparr> archive = {''N''}, repeated_smiles = 0 \<rparr>))"
  using first_occurrence_kept_second_penalised[of 0 2
      "[(''CO'', 3), (''N'', 4), (''CO'', 5), (''CC'', 6 :: int)]" "\<lambda>t. t"
      "\<lparr> archive = {''N''}, repeated_smiles = 0 \<rparr>" "-1"]
  by simp

end
